theory Spec2Isabelle
  imports Complex_Main
begin

unbundle bit_operations_syntax

section \<open>Data model of copra.hxx\<close>

text \<open>
  The header is a set of templates over a key type \<open>K\<close> (vertex and community ids), a
  weight type \<open>V\<close> and the Labelset capacity \<open>L\<close>. Keys are indices into vectors, so they
  are natural numbers here. The weight type stays a parameter: the functions below take
  the arithmetic of \<open>V\<close> as a record of the operations the header applies to weights:
  \<open>V()\<close>, \<open>V(1)\<close>, \<open>+\<close>, \<open>*\<close>, \<open>/\<close>, \<open><\<close> and \<open>==\<close>. The test \<open>!b\<close> on a weight is
  \<open>b == V()\<close>. Nothing is assumed of these operations, so what is proved for every such
  record holds for floats, with their rounding, infinities and NaN, as well as for exact
  numbers; the division in particular is applied with no test of the divisor, as in the
  source.
\<close>

type_synonym K = nat

record 'v Arith =
  zeroV :: 'v
  oneV :: 'v
  addV :: "'v \<Rightarrow> 'v \<Rightarrow> 'v"
  mulV :: "'v \<Rightarrow> 'v \<Rightarrow> 'v"
  divV :: "'v \<Rightarrow> 'v \<Rightarrow> 'v"
  lessV :: "'v \<Rightarrow> 'v \<Rightarrow> bool"
  eqV :: "'v \<Rightarrow> 'v \<Rightarrow> bool"

text \<open>
  A \<open>Labelset<K, V, L>\<close> is \<open>array<pair<K, V>, L>\<close>: a list of pairs whose length is the
  capacity. An index past the end of a \<open>vector\<close> or of an \<open>array\<close> is undefined behaviour
  in the source; the model makes each such access a branch that returns an error. These
  are the only errors.
\<close>

type_synonym 'v Labelset = "(K \<times> 'v) list"

datatype error = IndexOutOfRange | CapacityOverflow

text \<open>\<open>COPRA_LABELS\<close>, the default of the template parameter \<open>L\<close>.\<close>

definition COPRA_LABELS :: nat where
  "COPRA_LABELS = 8"

text \<open>Reading and writing \<open>vector\<close> element \<open>i\<close>.\<close>

definition vecGet :: "'a list \<Rightarrow> nat \<Rightarrow> error + 'a" where
  "vecGet xs i = (if i < length xs then Inr (xs ! i) else Inl IndexOutOfRange)"

definition vecSet :: "'a list \<Rightarrow> nat \<Rightarrow> 'a \<Rightarrow> error + 'a list" where
  "vecSet xs i a = (if i < length xs then Inr (xs[i := a]) else Inl IndexOutOfRange)"

text \<open>
  The graph \<open>x\<close> is used through \<open>span()\<close>, \<open>forEachVertexKey\<close>, \<open>forEachEdge\<close> and
  \<open>forEachEdgeKey\<close> only; its class is declared in \<open>_main.hxx\<close>. The record holds what
  these four enumerate: the span, the vertex keys in visiting order, and the outgoing
  edges (target, weight) of a vertex in visiting order.
\<close>

record 'v Graph =
  graph_span :: nat
  graph_vertexKeys :: "K list"
  graph_edges :: "K \<Rightarrow> (K \<times> 'v) list"

text \<open>The scan scratch state: \<open>vcs\<close> (communities touched) and \<open>vcout\<close> (weight by community).\<close>

type_synonym 'v scan = "K list \<times> 'v list"

text \<open>\<open>vcom[u][0].first\<close>, the primary community of \<open>u\<close>.\<close>

definition primaryCommunity :: "'v Labelset list \<Rightarrow> K \<Rightarrow> error + K" where
  "primaryCommunity vcom u =
     (case vecGet vcom u of
        Inl e \<Rightarrow> Inl e
      | Inr ls \<Rightarrow> (case ls of [] \<Rightarrow> Inl CapacityOverflow | (c, b) # _ \<Rightarrow> Inr c))"

section \<open>Scanner\<close>

text \<open>
  The loop of \<open>copraScanCommunity\<close> over the entries \<open>(c, b)\<close> of one Labelset:
  \<open>if (!b) break; if (!vcout[c]) vcs.push_back(c); vcout[c] += w*b;\<close>
\<close>

fun scanLabels :: "'v Arith \<Rightarrow> 'v \<Rightarrow> 'v scan \<Rightarrow> 'v Labelset \<Rightarrow> error + 'v scan" where
  "scanLabels A w (vcs, vcout) [] = Inr (vcs, vcout)"
| "scanLabels A w (vcs, vcout) ((c, b) # ls) =
     (if eqV A b (zeroV A) then Inr (vcs, vcout)
      else if c < length vcout then
        scanLabels A w
          ((if eqV A (vcout ! c) (zeroV A) then vcs @ [c] else vcs),
           vcout[c := addV A (vcout ! c) (mulV A w b)]) ls
      else Inl IndexOutOfRange)"

text \<open>
  \<open>copraScanCommunity<SELF>(vcs, vcout, u, v, w, vcom)\<close>. The Labelset the source
  iterates is \<open>vcom[u]\<close>.
\<close>

definition copraScanCommunity ::
  "'v Arith \<Rightarrow> bool \<Rightarrow> 'v scan \<Rightarrow> K \<Rightarrow> K \<Rightarrow> 'v \<Rightarrow> 'v Labelset list \<Rightarrow> error + 'v scan" where
  "copraScanCommunity A SELF s u v w vcom =
     (if \<not> SELF \<and> u = v then Inr s
      else case vecGet vcom u of
             Inl e \<Rightarrow> Inl e
           | Inr ls \<Rightarrow> scanLabels A w s ls)"

text \<open>\<open>copraScanCommunities\<close>: the scanner over every outgoing edge of \<open>u\<close>.\<close>

fun scanEdges ::
  "'v Arith \<Rightarrow> bool \<Rightarrow> K \<Rightarrow> 'v Labelset list \<Rightarrow> 'v scan \<Rightarrow> (K \<times> 'v) list \<Rightarrow> error + 'v scan" where
  "scanEdges A SELF u vcom s [] = Inr s"
| "scanEdges A SELF u vcom s ((v, w) # es) =
     (case copraScanCommunity A SELF s u v w vcom of
        Inl e \<Rightarrow> Inl e
      | Inr s' \<Rightarrow> scanEdges A SELF u vcom s' es)"

definition copraScanCommunities ::
  "'v Arith \<Rightarrow> bool \<Rightarrow> 'v scan \<Rightarrow> 'v Graph \<Rightarrow> K \<Rightarrow> 'v Labelset list \<Rightarrow> error + 'v scan" where
  "copraScanCommunities A SELF s x u vcom = scanEdges A SELF u vcom s (graph_edges x u)"

text \<open>
  \<open>copraSortScan<STRICT>\<close>: the comparator \<open>fl\<close> it builds, and the call of
  \<open>sortValues\<close>. \<open>sortValues\<close> is declared in \<open>_main.hxx\<close>, so the sorting routine is a
  parameter here.
\<close>

definition copraSortScan_fl :: "'v Arith \<Rightarrow> bool \<Rightarrow> 'v list \<Rightarrow> K \<Rightarrow> K \<Rightarrow> bool" where
  "copraSortScan_fl A STRICT vcout c d =
     (lessV A (vcout ! c) (vcout ! d) \<or>
      (\<not> STRICT \<and> eqV A (vcout ! c) (vcout ! d) \<and> (c XOR d) AND 2 \<noteq> 0))"


text \<open>\<open>copraClearScan\<close>: \<open>for (K c : vcs) vcout[c] = V(); vcs.clear();\<close>\<close>

fun clearWeights :: "'v Arith \<Rightarrow> 'v list \<Rightarrow> K list \<Rightarrow> error + 'v list" where
  "clearWeights A vcout [] = Inr vcout"
| "clearWeights A vcout (c # cs) =
     (if c < length vcout then clearWeights A (vcout[c := zeroV A]) cs
      else Inl IndexOutOfRange)"

definition copraClearScan :: "'v Arith \<Rightarrow> 'v scan \<Rightarrow> error + 'v scan" where
  "copraClearScan A s =
     (case clearWeights A (snd s) (fst s) of
        Inl e \<Rightarrow> Inl e
      | Inr vcout' \<Rightarrow> Inr ([], vcout'))"

section \<open>Selector\<close>

text \<open>
  The state of \<open>copraChooseCommunity\<close> is \<open>(n, w, labs)\<close>: the number of entries written,
  their total weight, and the local Labelset, which starts as \<open>L\<close> value-initialised
  pairs. A write \<open>labs[n++]\<close> with \<open>n\<close> at the capacity is the error \<open>CapacityOverflow\<close>.
\<close>

type_synonym 'v choice = "nat \<times> 'v \<times> 'v Labelset"

text \<open>Step 1: \<open>for (K c : vcs) { if (vcout[c] < WTH) continue; labs[n++] = {c, vcout[c]}; w += vcout[c]; }\<close>\<close>

fun chooseAbove :: "'v Arith \<Rightarrow> 'v list \<Rightarrow> 'v \<Rightarrow> 'v choice \<Rightarrow> K list \<Rightarrow> error + 'v choice" where
  "chooseAbove A vcout WTH (n, w, labs) [] = Inr (n, w, labs)"
| "chooseAbove A vcout WTH (n, w, labs) (c # cs) =
     (if c < length vcout then
        (if lessV A (vcout ! c) WTH then chooseAbove A vcout WTH (n, w, labs) cs
         else if n < length labs then
           chooseAbove A vcout WTH
             (Suc n, addV A w (vcout ! c), labs[n := (c, vcout ! c)]) cs
         else Inl CapacityOverflow)
      else Inl IndexOutOfRange)"

text \<open>
  Step 2: \<open>if (n==0 && !vcs.empty()) { K c = vcs[0]; labs[n++] = {c, vcout[c]}; w += vcout[c]; }\<close>
  The first equation is the case of an empty \<open>vcs\<close>.
\<close>

fun chooseFirst :: "'v Arith \<Rightarrow> 'v list \<Rightarrow> K list \<Rightarrow> 'v choice \<Rightarrow> error + 'v choice" where
  "chooseFirst A vcout [] (n, w, labs) = Inr (n, w, labs)"
| "chooseFirst A vcout (c # cs) (n, w, labs) =
     (if n = 0 then
        (if c < length vcout then
           (if n < length labs then
              Inr (Suc n, addV A w (vcout ! c), labs[n := (c, vcout ! c)])
            else Inl CapacityOverflow)
         else Inl IndexOutOfRange)
      else Inr (n, w, labs))"

text \<open>The candidate set: the state after steps 1 and 2.\<close>

definition copraChooseCandidates ::
  "'v Arith \<Rightarrow> nat \<Rightarrow> K list \<Rightarrow> 'v list \<Rightarrow> 'v \<Rightarrow> error + 'v choice" where
  "copraChooseCandidates A L vcs vcout WTH =
     (case chooseAbove A vcout WTH (0, zeroV A, replicate L (0, zeroV A)) vcs of
        Inl e \<Rightarrow> Inl e
      | Inr st \<Rightarrow> chooseFirst A vcout vcs st)"

text \<open>
  Step 3: \<open>for (K i=0; i<n; ++i) labs[i].second /= w;\<close> over the indices \<open>[0..<n]\<close>. The
  quotient is taken whatever \<open>w\<close> is.
\<close>

fun normalizeLabels :: "'v Arith \<Rightarrow> 'v \<Rightarrow> 'v Labelset \<Rightarrow> nat list \<Rightarrow> error + 'v Labelset" where
  "normalizeLabels A w labs [] = Inr labs"
| "normalizeLabels A w labs (i # is) =
     (if i < length labs then
        normalizeLabels A w (labs[i := (fst (labs ! i), divV A (snd (labs ! i)) w)]) is
      else Inl CapacityOverflow)"

text \<open>Step 4: \<open>if (n==0) labs[0] = {u, 1};\<close>\<close>

definition chooseSelf :: "'v Arith \<Rightarrow> K \<Rightarrow> nat \<Rightarrow> 'v Labelset \<Rightarrow> error + 'v Labelset" where
  "chooseSelf A u n labs =
     (if n = 0 then
        (if 0 < length labs then Inr (labs[0 := (u, oneV A)]) else Inl CapacityOverflow)
      else Inr labs)"

text \<open>\<open>copraChooseCommunity(a, u, vcs, vcout, WTH)\<close>; the result is the Labelset stored in \<open>a\<close>.\<close>

definition copraChooseCommunity ::
  "'v Arith \<Rightarrow> nat \<Rightarrow> K \<Rightarrow> K list \<Rightarrow> 'v list \<Rightarrow> 'v \<Rightarrow> error + 'v Labelset" where
  "copraChooseCommunity A L u vcs vcout WTH =
     (case copraChooseCandidates A L vcs vcout WTH of
        Inl e \<Rightarrow> Inl e
      | Inr (n, w, labs) \<Rightarrow>
          (case normalizeLabels A w labs [0..<n] of
             Inl e \<Rightarrow> Inl e
           | Inr labs' \<Rightarrow> chooseSelf A u n labs'))"

section \<open>Affected vertices: delta-screening\<close>

text \<open>
  The three flag vectors of \<open>copraAffectedVerticesDeltaScreening\<close> and its scan scratch
  state.
\<close>

record 'v dsState =
  scratch :: "'v scan"
  vertices :: "bool list"
  neighbors :: "bool list"
  communities :: "bool list"

text \<open>\<open>vertices[u] = true; neighbors[u] = true; communities[c] = true;\<close>\<close>

definition markChanged :: "'v dsState \<Rightarrow> K \<Rightarrow> K \<Rightarrow> error + 'v dsState" where
  "markChanged st u c =
     (case vecSet (vertices st) u True of
        Inl e \<Rightarrow> Inl e
      | Inr vs \<Rightarrow>
     (case vecSet (neighbors st) u True of
        Inl e \<Rightarrow> Inl e
      | Inr ns \<Rightarrow>
     (case vecSet (communities st) c True of
        Inl e \<Rightarrow> Inl e
      | Inr cs \<Rightarrow> Inr (st\<lparr>vertices := vs, neighbors := ns, communities := cs\<rparr>))))"

text \<open>The loop over the deletions.\<close>

fun dsDeletions :: "'v Labelset list \<Rightarrow> 'v dsState \<Rightarrow> (K \<times> K) list \<Rightarrow> error + 'v dsState" where
  "dsDeletions vcom st [] = Inr st"
| "dsDeletions vcom st ((u, v) # ds) =
     (case primaryCommunity vcom u of
        Inl e \<Rightarrow> Inl e
      | Inr cu \<Rightarrow>
     (case primaryCommunity vcom v of
        Inl e \<Rightarrow> Inl e
      | Inr cv \<Rightarrow>
          if cu \<noteq> cv then dsDeletions vcom st ds
          else (case markChanged st u cv of
                  Inl e \<Rightarrow> Inl e
                | Inr st' \<Rightarrow> dsDeletions vcom st' ds)))"

text \<open>
  The inner loop over one run of insertions with source \<open>u\<close>: an insertion whose
  destination has the primary community of \<open>u\<close> is skipped, the others are scanned.
\<close>

fun dsScanRun ::
  "'v Arith \<Rightarrow> 'v Labelset list \<Rightarrow> K \<Rightarrow> 'v scan \<Rightarrow> (K \<times> K \<times> 'v) list \<Rightarrow> error + 'v scan" where
  "dsScanRun A vcom u s [] = Inr s"
| "dsScanRun A vcom u s ((u', v, w) # es) =
     (case primaryCommunity vcom u of
        Inl e \<Rightarrow> Inl e
      | Inr cu \<Rightarrow>
     (case primaryCommunity vcom v of
        Inl e \<Rightarrow> Inl e
      | Inr cv \<Rightarrow>
          if cu = cv then dsScanRun A vcom u s es
          else (case copraScanCommunity A False s u v w vcom of
                  Inl e \<Rightarrow> Inl e
                | Inr s' \<Rightarrow> dsScanRun A vcom u s' es)))"

text \<open>
  What follows the inner loop: the Selector runs with threshold \<open>B*vtot[u]\<close>, and \<open>u\<close> is
  marked when the first community \<open>cl\<close> of the chosen Labelset is not its primary
  community. The call in the source is \<open>copraChooseCommunity<STRICT>(x, u, vcs, vcout,
  B*vtot[u])\<close> with the Labelset as its value; the header defines one
  \<open>copraChooseCommunity\<close>, the one above, which the model calls. Only \<open>ls[0].first\<close> is
  read from its result.
\<close>

definition dsChooseRun ::
  "'v Arith \<Rightarrow> nat \<Rightarrow> 'v Labelset list \<Rightarrow> 'v list \<Rightarrow> 'v \<Rightarrow> 'v dsState \<Rightarrow> K \<Rightarrow> error + 'v dsState" where
  "dsChooseRun A L vcom vtot B st u =
     (case vecGet vtot u of
        Inl e \<Rightarrow> Inl e
      | Inr tu \<Rightarrow>
     (case copraChooseCommunity A L u (fst (scratch st)) (snd (scratch st)) (mulV A B tu) of
        Inl e \<Rightarrow> Inl e
      | Inr ls \<Rightarrow>
     (case primaryCommunity vcom u of
        Inl e \<Rightarrow> Inl e
      | Inr cu \<Rightarrow>
     (case ls of
        [] \<Rightarrow> Inl CapacityOverflow
      | (cl, b) # _ \<Rightarrow> if cl = cu then Inr st else markChanged st u cl))))"

text \<open>
  The outer loop over the insertions: \<open>u\<close> is the source of the first insertion left, the
  run is that insertion and the following ones with the same source.
\<close>

function dsInsertions ::
  "'v Arith \<Rightarrow> nat \<Rightarrow> 'v Labelset list \<Rightarrow> 'v list \<Rightarrow> 'v \<Rightarrow> 'v dsState \<Rightarrow> (K \<times> K \<times> 'v) list
     \<Rightarrow> error + 'v dsState" where
  "dsInsertions A L vcom vtot B st [] = Inr st"
| "dsInsertions A L vcom vtot B st (i # is) =
     (case copraClearScan A (scratch st) of
        Inl e \<Rightarrow> Inl e
      | Inr s0 \<Rightarrow>
     (case dsScanRun A vcom (fst i) s0 (i # takeWhile (\<lambda>j. fst j = fst i) is) of
        Inl e \<Rightarrow> Inl e
      | Inr s1 \<Rightarrow>
     (case dsChooseRun A L vcom vtot B (st\<lparr>scratch := s1\<rparr>) (fst i) of
        Inl e \<Rightarrow> Inl e
      | Inr st' \<Rightarrow> dsInsertions A L vcom vtot B st' (dropWhile (\<lambda>j. fst j = fst i) is))))"
  by pat_completeness auto
termination
  by (relation "measure (\<lambda>(A, L, vcom, vtot, B, st, ins). length ins)")
     (auto simp: length_dropWhile_le less_Suc_eq_le)

text \<open>\<open>x.forEachEdgeKey(u, [&](auto v) { vertices[v] = true; })\<close>\<close>

fun markAll :: "bool list \<Rightarrow> K list \<Rightarrow> error + bool list" where
  "markAll vs [] = Inr vs"
| "markAll vs (v # ks) =
     (case vecSet vs v True of
        Inl e \<Rightarrow> Inl e
      | Inr vs' \<Rightarrow> markAll vs' ks)"

text \<open>
  The pass over the vertex keys. It reads \<open>neighbors\<close> and \<open>communities\<close> and writes
  \<open>vertices\<close> only.
\<close>

fun dsPropagate ::
  "'v Graph \<Rightarrow> 'v Labelset list \<Rightarrow> bool list \<Rightarrow> bool list \<Rightarrow> bool list \<Rightarrow> K list
     \<Rightarrow> error + bool list" where
  "dsPropagate x vcom nbs cms vs [] = Inr vs"
| "dsPropagate x vcom nbs cms vs (u # us) =
     (case primaryCommunity vcom u of
        Inl e \<Rightarrow> Inl e
      | Inr cu \<Rightarrow>
     (case vecGet nbs u of
        Inl e \<Rightarrow> Inl e
      | Inr nb \<Rightarrow>
     (case (if nb then markAll vs (map fst (graph_edges x u)) else Inr vs) of
        Inl e \<Rightarrow> Inl e
      | Inr vs1 \<Rightarrow>
     (case vecGet cms cu of
        Inl e \<Rightarrow> Inl e
      | Inr cm \<Rightarrow>
     (case (if cm then vecSet vs1 u True else Inr vs1) of
        Inl e \<Rightarrow> Inl e
      | Inr vs2 \<Rightarrow> dsPropagate x vcom nbs cms vs2 us)))))"

definition dsInit :: "'v Arith \<Rightarrow> 'v Graph \<Rightarrow> 'v dsState" where
  "dsInit A x =
     \<lparr>scratch = ([], replicate (graph_span x) (zeroV A)),
      vertices = replicate (graph_span x) False,
      neighbors = replicate (graph_span x) False,
      communities = replicate (graph_span x) False\<rparr>"

definition copraAffectedVerticesDeltaScreening ::
  "'v Arith \<Rightarrow> nat \<Rightarrow> 'v Graph \<Rightarrow> (K \<times> K) list \<Rightarrow> (K \<times> K \<times> 'v) list \<Rightarrow> 'v Labelset list
     \<Rightarrow> 'v list \<Rightarrow> 'v \<Rightarrow> error + bool list" where
  "copraAffectedVerticesDeltaScreening A L x deletions insertions vcom vtot B =
     (case dsDeletions vcom (dsInit A x) deletions of
        Inl e \<Rightarrow> Inl e
      | Inr st1 \<Rightarrow>
     (case dsInsertions A L vcom vtot B st1 insertions of
        Inl e \<Rightarrow> Inl e
      | Inr st2 \<Rightarrow>
          dsPropagate x vcom (neighbors st2) (communities st2) (vertices st2)
            (graph_vertexKeys x)))"

section \<open>Affected vertices: frontier\<close>

fun frontierDeletions ::
  "'v Labelset list \<Rightarrow> bool list \<Rightarrow> (K \<times> K) list \<Rightarrow> error + bool list" where
  "frontierDeletions vcom vs [] = Inr vs"
| "frontierDeletions vcom vs ((u, v) # ds) =
     (case primaryCommunity vcom u of
        Inl e \<Rightarrow> Inl e
      | Inr cu \<Rightarrow>
     (case primaryCommunity vcom v of
        Inl e \<Rightarrow> Inl e
      | Inr cv \<Rightarrow>
          if cu \<noteq> cv then frontierDeletions vcom vs ds
          else (case vecSet vs u True of
                  Inl e \<Rightarrow> Inl e
                | Inr vs' \<Rightarrow> frontierDeletions vcom vs' ds)))"

fun frontierInsertions ::
  "'v Labelset list \<Rightarrow> bool list \<Rightarrow> (K \<times> K \<times> 'v) list \<Rightarrow> error + bool list" where
  "frontierInsertions vcom vs [] = Inr vs"
| "frontierInsertions vcom vs ((u, v, w) # is) =
     (case primaryCommunity vcom u of
        Inl e \<Rightarrow> Inl e
      | Inr cu \<Rightarrow>
     (case primaryCommunity vcom v of
        Inl e \<Rightarrow> Inl e
      | Inr cv \<Rightarrow>
          if cu = cv then frontierInsertions vcom vs is
          else (case vecSet vs u True of
                  Inl e \<Rightarrow> Inl e
                | Inr vs' \<Rightarrow> frontierInsertions vcom vs' is)))"

definition copraAffectedVerticesFrontier ::
  "'v Graph \<Rightarrow> (K \<times> K) list \<Rightarrow> (K \<times> K \<times> 'v) list \<Rightarrow> 'v Labelset list \<Rightarrow> error + bool list" where
  "copraAffectedVerticesFrontier x deletions insertions vcom =
     (case frontierDeletions vcom (replicate (graph_span x) False) deletions of
        Inl e \<Rightarrow> Inl e
      | Inr vs \<Rightarrow> frontierInsertions vcom vs insertions)"


section \<open>Notions used in the statements\<close>

text \<open>
  Exact arithmetic: the weights are rationals with their own operations. Its quotient by
  zero is the one of the logic and carries no meaning; statements that depend on a
  quotient assume the divisor is not zero.
\<close>

definition exactArith :: "rat Arith" where
  "exactArith =
     \<lparr>zeroV = 0, oneV = 1, addV = (\<lambda>a b. a + b), mulV = (\<lambda>a b. a * b),
      divV = (\<lambda>a b. a / b), lessV = (\<lambda>a b. a < b), eqV = (\<lambda>a b. a = b)\<rparr>"

text \<open>
  The Labelset \<open>{make_pair(u, V(1))}\<close> that \<open>copraInitialize\<close> stores for \<open>u\<close>: the first
  pair is \<open>(u, 1)\<close>, the other slots are value-initialised.
\<close>

definition selfLabelset :: "'v Arith \<Rightarrow> nat \<Rightarrow> K \<Rightarrow> 'v Labelset" where
  "selfLabelset A L u = (replicate L (0, zeroV A))[0 := (u, oneV A)]"


text \<open>
  The populated entries of a Labelset, as the scanner reads them (\<open>if (!b) break\<close>): the
  entries before the first one whose coefficient is zero.
\<close>

definition populated :: "'v Arith \<Rightarrow> 'v Labelset \<Rightarrow> 'v Labelset" where
  "populated A ls = takeWhile (\<lambda>e. \<not> eqV A (snd e) (zeroV A)) ls"

text \<open>
  The touched communities that step 1 of the Selector keeps (those it does not skip),
  a list of communities paired with their accumulated weights, the candidates after
  step 2 (the kept communities, or the front of the touched list when none is kept), the
  total \<open>w\<close> that the Selector accumulates over a list of communities, and a Labelset
  with every coefficient divided by \<open>w\<close>.
\<close>

definition aboveThreshold :: "'v Arith \<Rightarrow> 'v list \<Rightarrow> 'v \<Rightarrow> K list \<Rightarrow> K list" where
  "aboveThreshold A vcout WTH vcs = filter (\<lambda>c. \<not> lessV A (vcout ! c) WTH) vcs"

definition weighted :: "'v list \<Rightarrow> K list \<Rightarrow> 'v Labelset" where
  "weighted vcout cs = map (\<lambda>c. (c, vcout ! c)) cs"

definition candidates :: "'v Arith \<Rightarrow> 'v list \<Rightarrow> 'v \<Rightarrow> K list \<Rightarrow> K list" where
  "candidates A vcout WTH vcs =
     (if aboveThreshold A vcout WTH vcs = [] then take 1 vcs
      else aboveThreshold A vcout WTH vcs)"

definition totalFrom :: "'v Arith \<Rightarrow> 'v list \<Rightarrow> 'v \<Rightarrow> K list \<Rightarrow> 'v" where
  "totalFrom A vcout w cs = foldl (\<lambda>a c. addV A a (vcout ! c)) w cs"

definition normalized :: "'v Arith \<Rightarrow> 'v \<Rightarrow> 'v Labelset \<Rightarrow> 'v Labelset" where
  "normalized A w ls = map (\<lambda>e. (fst e, divV A (snd e) w)) ls"



text \<open>Flag vectors of one length, ordered pointwise; the same for the three of a state.\<close>

definition flagsLe :: "bool list \<Rightarrow> bool list \<Rightarrow> bool" where
  "flagsLe xs ys = (length xs = length ys \<and> list_all2 (\<lambda>a b. a \<le> b) xs ys)"

definition stateLe :: "'v dsState \<Rightarrow> 'v dsState \<Rightarrow> bool" where
  "stateLe st st' = (flagsLe (vertices st) (vertices st') \<and> flagsLe (neighbors st) (neighbors st')
     \<and> flagsLe (communities st) (communities st'))"

text \<open>Vertex \<open>u\<close> is marked changed and neighbor-touched, community \<open>c\<close> community-touched.\<close>

definition marked :: "'v dsState \<Rightarrow> K \<Rightarrow> K \<Rightarrow> bool" where
  "marked st u c = (u < length (vertices st) \<and> vertices st ! u \<and> u < length (neighbors st) \<and>
     neighbors st ! u \<and> c < length (communities st) \<and> communities st ! c)"

text \<open>
  Inputs on which the detectors index inside their vectors: a vertex has a Labelset in
  the table and both its key and its primary community are below the span; this holds
  for every vertex key of the graph, for every edge target, for both ends of every
  deletion.
\<close>

definition inTable :: "'v Graph \<Rightarrow> 'v Labelset list \<Rightarrow> K \<Rightarrow> bool" where
  "inTable x vcom u =
     (case primaryCommunity vcom u of
        Inl e \<Rightarrow> False
      | Inr c \<Rightarrow> u < graph_span x \<and> c < graph_span x)"

definition tableInRange :: "'v Graph \<Rightarrow> 'v Labelset list \<Rightarrow> bool" where
  "tableInRange x vcom = list_all (inTable x vcom) (graph_vertexKeys x)"

definition edgesInRange :: "'v Graph \<Rightarrow> bool" where
  "edgesInRange x =
     list_all (\<lambda>u. list_all (\<lambda>e. fst e < graph_span x) (graph_edges x u)) (graph_vertexKeys x)"

definition batchInRange :: "'v Graph \<Rightarrow> 'v Labelset list \<Rightarrow> (K \<times> K) list \<Rightarrow> bool" where
  "batchInRange x vcom ds = list_all (\<lambda>e. inTable x vcom (fst e) \<and> inTable x vcom (snd e)) ds"

text \<open>
  The same for an insertion \<open>i\<close> of a batch: both ends are in the table, the source
  indexes \<open>vtot\<close>, the populated entries of the source's Labelset (the one the scanner
  reads) name communities below the span, and the insertions of the batch with this source
  cannot touch more than \<open>L\<close> communities: each scan appends at most one community for
  each populated entry.
\<close>

definition insertionInRange ::
  "'v Arith \<Rightarrow> nat \<Rightarrow> 'v Graph \<Rightarrow> 'v Labelset list \<Rightarrow> 'v list \<Rightarrow> (K \<times> K \<times> 'v) list
     \<Rightarrow> K \<times> K \<times> 'v \<Rightarrow> bool" where
  "insertionInRange A L x vcom vtot ins i =
     (inTable x vcom (fst i) \<and> inTable x vcom (fst (snd i)) \<and> fst i < length vtot \<and>
      list_all (\<lambda>e. fst e < graph_span x) (populated A (vcom ! fst i)) \<and>
      length (filter (\<lambda>j. fst j = fst i) ins) * length (populated A (vcom ! fst i)) \<le> L)"

definition insertionsInRange ::
  "'v Arith \<Rightarrow> nat \<Rightarrow> 'v Graph \<Rightarrow> 'v Labelset list \<Rightarrow> 'v list \<Rightarrow> (K \<times> K \<times> 'v) list \<Rightarrow> bool" where
  "insertionsInRange A L x vcom vtot ins =
     (0 < L \<and> list_all (insertionInRange A L x vcom vtot ins) ins)"

text \<open>
  A state of delta-screening whose vectors have the length of the span and whose touched
  communities are below it.
\<close>

definition stateInRange :: "'v Graph \<Rightarrow> 'v dsState \<Rightarrow> bool" where
  "stateInRange x st = (length (snd (scratch st)) = graph_span x \<and>
     (\<forall>c\<in>set (fst (scratch st)). c < graph_span x) \<and>
     length (vertices st) = graph_span x \<and> length (neighbors st) = graph_span x \<and>
     length (communities st) = graph_span x)"

text \<open>The two ends of a deletion have one primary community.\<close>

definition sameCommunity :: "'v Labelset list \<Rightarrow> K \<times> K \<Rightarrow> bool" where
  "sameCommunity vcom e =
     (case primaryCommunity vcom (fst e) of
        Inl _ \<Rightarrow> False
      | Inr cu \<Rightarrow> (case primaryCommunity vcom (snd e) of Inl _ \<Rightarrow> False | Inr cv \<Rightarrow> cu = cv))"

text \<open>
  The graph of the examples: vertices 0, 1, 2 and the undirected edges 0-1 (weight 5) and
  1-2 (weight 1), so the vertex weights are 5, 6 and 1. In \<open>ownCommunities\<close> every vertex
  is its own community, in \<open>mergedCommunities\<close> vertex 1 has joined community 0. The
  Labelsets of the examples have the default capacity, 8, and exact weights.
\<close>

definition pathGraph :: "rat Graph" where
  "pathGraph =
     \<lparr>graph_span = 3, graph_vertexKeys = [0, 1, 2],
      graph_edges = (\<lambda>u. if u = 0 then [(1, 5)] else if u = 1 then [(0, 5), (2, 1)]
                          else if u = 2 then [(1, 1)] else [])\<rparr>"

definition ownCommunities :: "rat Labelset list" where
  "ownCommunities =
     [selfLabelset exactArith 8 0, selfLabelset exactArith 8 1, selfLabelset exactArith 8 2]"

definition mergedCommunities :: "rat Labelset list" where
  "mergedCommunities =
     [selfLabelset exactArith 8 0, selfLabelset exactArith 8 0, selfLabelset exactArith 8 2]"


section \<open>The Selector: what it returns\<close>


lemma take_Suc_update: "n < length xs \<Longrightarrow> take (Suc n) (xs[n := a]) = take n xs @ [a]"
  by (simp add: take_Suc_conv_app_nth)

lemma aboveThreshold_Cons:
  "aboveThreshold A vcout WTH (c # cs) =
     (if lessV A (vcout ! c) WTH then aboveThreshold A vcout WTH cs
      else c # aboveThreshold A vcout WTH cs)"
  by (simp add: aboveThreshold_def)

lemma length_above_le: "length (aboveThreshold A vcout WTH vcs) \<le> length vcs"
  by (simp add: aboveThreshold_def)

lemma length_weighted: "length (weighted vcout cs) = length cs"
  by (simp add: weighted_def)

lemma length_normalized: "length (normalized A w ls) = length ls"
  by (simp add: normalized_def)

lemma totalFrom_Cons:
  "totalFrom A vcout w (c # cs) = totalFrom A vcout (addV A w (vcout ! c)) cs"
  by (simp add: totalFrom_def)

lemma chooseAbove_eq:
  assumes "\<forall>c\<in>set cs. c < length vcout" and "n \<le> length labs"
  shows "chooseAbove A vcout WTH (n, w, labs) cs =
     (if n + length (aboveThreshold A vcout WTH cs) \<le> length labs
      then Inr (n + length (aboveThreshold A vcout WTH cs),
                totalFrom A vcout w (aboveThreshold A vcout WTH cs),
                take n labs @ weighted vcout (aboveThreshold A vcout WTH cs)
                  @ drop (n + length (aboveThreshold A vcout WTH cs)) labs)
      else Inl CapacityOverflow)"
  using assms
proof (induction cs arbitrary: n w labs)
  case Nil
  then show ?case by (simp add: aboveThreshold_def weighted_def totalFrom_def)
next
  case (Cons c cs)
  have c: "c < length vcout" and cs: "\<forall>c\<in>set cs. c < length vcout"
    using Cons.prems(1) by simp_all
  show ?case
  proof (cases "lessV A (vcout ! c) WTH")
    case True
    then show ?thesis
      using c Cons.IH [OF cs Cons.prems(2)] by (simp add: aboveThreshold_Cons)
  next
    case False
    show ?thesis
    proof (cases "n < length labs")
      case True
      have le: "Suc n \<le> length (labs[n := (c, vcout ! c)])" using True by simp
      show ?thesis
        using c False True Cons.IH [OF cs le, of "addV A w (vcout ! c)"]
        by (simp add: aboveThreshold_Cons take_Suc_update weighted_def totalFrom_Cons)
    next
      case False2: False
      then show ?thesis using c False by (simp add: aboveThreshold_Cons)
    qed
  qed
qed

lemma chooseAbove_in_range:
  "chooseAbove A vcout WTH (n, w, labs) cs = Inr r \<Longrightarrow> \<forall>c\<in>set cs. c < length vcout"
  by (induction cs arbitrary: n w labs) (auto split: if_splits)

lemma copraChooseCandidates_in_range:
  "copraChooseCandidates A L vcs vcout WTH = Inr r \<Longrightarrow> \<forall>c\<in>set vcs. c < length vcout"
  by (auto simp: copraChooseCandidates_def split: sum.splits dest: chooseAbove_in_range)

lemma length_candidates:
  "0 < L \<Longrightarrow>
     (L < length (candidates A vcout WTH vcs)) = (L < length (aboveThreshold A vcout WTH vcs))"
  by (cases vcs) (auto simp: candidates_def)

lemma length_candidates_le: "length (candidates A vcout WTH vcs) \<le> max 1 (length vcs)"
  using length_above_le [of A vcout WTH vcs] by (auto simp: candidates_def)

lemma set_candidates: "set (candidates A vcout WTH vcs) \<subseteq> set vcs"
  by (auto simp: candidates_def aboveThreshold_def dest: in_set_takeD)

lemma copraChooseCandidates_eq:
  assumes "\<forall>c\<in>set vcs. c < length vcout"
  shows "copraChooseCandidates A L vcs vcout WTH =
     (if length (candidates A vcout WTH vcs) \<le> L
      then Inr (length (candidates A vcout WTH vcs),
                totalFrom A vcout (zeroV A) (candidates A vcout WTH vcs),
                weighted vcout (candidates A vcout WTH vcs)
                  @ replicate (L - length (candidates A vcout WTH vcs)) (0, zeroV A))
      else Inl CapacityOverflow)"
proof (cases "aboveThreshold A vcout WTH vcs = []")
  case False
  then have "0 < length (aboveThreshold A vcout WTH vcs)" by simp
  moreover have "vcs \<noteq> []" using False by (auto simp: aboveThreshold_def)
  then obtain c cs where "vcs = c # cs" by (cases vcs) auto
  ultimately show ?thesis
    using False chooseAbove_eq [OF assms, of 0 "replicate L (0, zeroV A)" A WTH "zeroV A"]
    by (simp add: copraChooseCandidates_def candidates_def)
next
  case True
  show ?thesis
  proof (cases vcs)
    case Nil
    then show ?thesis
      by (simp add: copraChooseCandidates_def candidates_def totalFrom_def weighted_def
          aboveThreshold_def)
  next
    case (Cons c cs)
    have "c < length vcout" using assms Cons by simp
    then show ?thesis
      using True Cons chooseAbove_eq [OF assms, of 0 "replicate L (0, zeroV A)" A WTH "zeroV A"]
      by (cases L) (simp_all add: copraChooseCandidates_def candidates_def totalFrom_def weighted_def)
  qed
qed

lemma normalizeLabels_eq:
  assumes "\<forall>i\<in>set is. i < length labs" and "distinct is"
  shows "\<exists>labs'. normalizeLabels A w labs is = Inr labs' \<and> length labs' = length labs \<and>
     (\<forall>j<length labs. labs' ! j =
        (if j \<in> set is then (fst (labs ! j), divV A (snd (labs ! j)) w) else labs ! j))"
  using assms
proof (induction "is" arbitrary: labs)
  case Nil
  then show ?case by simp
next
  case (Cons i "is")
  let ?labs = "labs[i := (fst (labs ! i), divV A (snd (labs ! i)) w)]"
  have "\<forall>i\<in>set is. i < length ?labs" using Cons.prems by simp
  moreover have "distinct is" using Cons.prems by simp
  ultimately obtain labs' where r: "normalizeLabels A w ?labs is = Inr labs'"
    "length labs' = length ?labs"
    "\<forall>j<length ?labs. labs' ! j =
        (if j \<in> set is then (fst (?labs ! j), divV A (snd (?labs ! j)) w) else ?labs ! j)"
    using Cons.IH [of ?labs] by blast
  have i: "i < length labs" "i \<notin> set is" using Cons.prems by simp_all
  have "normalizeLabels A w labs (i # is) = Inr labs'"
    using r(1) i by simp
  moreover have "\<forall>j<length labs. labs' ! j =
        (if j \<in> set (i # is) then (fst (labs ! j), divV A (snd (labs ! j)) w) else labs ! j)"
  proof (intro allI impI)
    fix j assume j: "j < length labs"
    show "labs' ! j =
      (if j \<in> set (i # is) then (fst (labs ! j), divV A (snd (labs ! j)) w) else labs ! j)"
    proof (cases "j = i")
      case True
      then show ?thesis using r(3) i j by simp
    next
      case False
      then show ?thesis using r(3) j by simp
    qed
  qed
  ultimately show ?case using r(2) by simp
qed

lemma normalizeLabels_upt:
  assumes "n \<le> length labs"
  shows "normalizeLabels A w labs [0..<n] = Inr (normalized A w (take n labs) @ drop n labs)"
proof -
  obtain labs' where r: "normalizeLabels A w labs [0..<n] = Inr labs'"
    "length labs' = length labs"
    "\<forall>j<length labs. labs' ! j =
        (if j \<in> set [0..<n] then (fst (labs ! j), divV A (snd (labs ! j)) w) else labs ! j)"
    using normalizeLabels_eq [of "[0..<n]" labs A w] assms by auto
  have "labs' = normalized A w (take n labs) @ drop n labs"
  proof (rule nth_equalityI)
    show "length labs' = length (normalized A w (take n labs) @ drop n labs)"
      using r(2) assms by (simp add: normalized_def)
  next
    fix j assume "j < length labs'"
    then have j: "j < length labs" using r(2) by simp
    show "labs' ! j = (normalized A w (take n labs) @ drop n labs) ! j"
      using r(3) j assms by (auto simp: normalized_def nth_append)
  qed
  then show ?thesis using r(1) by simp
qed

lemma copraChooseCommunity_normalizes:
  assumes c: "copraChooseCandidates A L vcs vcout WTH = Inr (n, w, labs)" and n: "0 < n"
  shows "n \<le> length labs \<and> length labs = L \<and>
     copraChooseCommunity A L u vcs vcout WTH = Inr (normalized A w (take n labs) @ drop n labs)"
proof -
  have r: "\<forall>c\<in>set vcs. c < length vcout"
    using c by (rule copraChooseCandidates_in_range)
  have e: "length (candidates A vcout WTH vcs) \<le> L" "n = length (candidates A vcout WTH vcs)"
    "labs = weighted vcout (candidates A vcout WTH vcs)
       @ replicate (L - length (candidates A vcout WTH vcs)) (0, zeroV A)"
    using c unfolding copraChooseCandidates_eq [OF r] by (auto split: if_splits)
  have len: "n \<le> length labs" "length labs = L"
    using e by (simp_all add: length_weighted)
  have "normalizeLabels A w labs [0..<n] = Inr (normalized A w (take n labs) @ drop n labs)"
    using len(1) by (rule normalizeLabels_upt)
  then show ?thesis
    using c n len by (simp add: copraChooseCommunity_def chooseSelf_def)
qed

lemma copraChooseCommunity_eq:
  assumes "\<forall>c\<in>set vcs. c < length vcout"
  shows "copraChooseCommunity A L u vcs vcout WTH =
     (if L < length (candidates A vcout WTH vcs) then Inl CapacityOverflow
      else if candidates A vcout WTH vcs = []
        then (if 0 < L then Inr (selfLabelset A L u) else Inl CapacityOverflow)
      else Inr (normalized A (totalFrom A vcout (zeroV A) (candidates A vcout WTH vcs))
                  (weighted vcout (candidates A vcout WTH vcs))
                @ replicate (L - length (candidates A vcout WTH vcs)) (0, zeroV A)))"
proof -
  let ?cs = "candidates A vcout WTH vcs"
  let ?w = "totalFrom A vcout (zeroV A) ?cs"
  let ?labs = "weighted vcout ?cs @ replicate (L - length ?cs) (0, zeroV A)"
  show ?thesis
  proof (cases "length ?cs \<le> L")
    case False
    then show ?thesis
      by (simp add: copraChooseCommunity_def copraChooseCandidates_eq [OF assms])
  next
    case le: True
    have c: "copraChooseCandidates A L vcs vcout WTH = Inr (length ?cs, ?w, ?labs)"
      using le by (simp add: copraChooseCandidates_eq [OF assms])
    show ?thesis
    proof (cases "?cs = []")
      case True
      then show ?thesis
        using c by (simp add: copraChooseCommunity_def chooseSelf_def selfLabelset_def weighted_def)
    next
      case ne: False
      then show ?thesis
        using copraChooseCommunity_normalizes [OF c, of u] le
        by (simp add: length_weighted)
    qed
  qed
qed

lemma copraChooseCommunity_first:
  assumes "\<forall>c\<in>set vcs. c < length vcout" and "length vcs \<le> L" and "0 < L"
  shows "\<exists>cl b ls. copraChooseCommunity A L u vcs vcout WTH = Inr ((cl, b) # ls) \<and>
     (cl = u \<or> cl \<in> set vcs)"
proof -
  let ?cs = "candidates A vcout WTH vcs"
  have le: "\<not> L < length ?cs"
    using length_candidates_le [of A vcout WTH vcs] assms(2,3) by simp
  show ?thesis
  proof (cases "?cs = []")
    case True
    obtain k where k: "L = Suc k" using assms(3) by (cases L) auto
    have "copraChooseCommunity A L u vcs vcout WTH = Inr (selfLabelset A L u)"
      using True assms(3) le unfolding copraChooseCommunity_eq [OF assms(1)] by simp
    then show ?thesis unfolding k by (simp add: selfLabelset_def)
  next
    case False
    then obtain c cs where cs: "?cs = c # cs" by (cases ?cs) auto
    have "c \<in> set vcs" using set_candidates [of A vcout WTH vcs] cs by auto
    moreover have "copraChooseCommunity A L u vcs vcout WTH =
        Inr (normalized A (totalFrom A vcout (zeroV A) ?cs) (weighted vcout ?cs)
                @ replicate (L - length ?cs) (0, zeroV A))"
      using False le unfolding copraChooseCommunity_eq [OF assms(1)] by simp
    ultimately show ?thesis unfolding cs by (simp add: normalized_def weighted_def)
  qed
qed

lemma totalFrom_exact:
  "totalFrom exactArith vcout w cs = w + sum_list (map ((!) vcout) cs)"
  by (induction cs arbitrary: w) (simp_all add: totalFrom_def exactArith_def)

lemma sum_normalized_exact:
  "sum_list (map snd (normalized exactArith w ls)) = sum_list (map snd ls) / w"
  by (induction ls) (simp_all add: normalized_def exactArith_def add_divide_distrib)

lemma populated_Cons:
  "populated A ((c, b) # ls) = (if eqV A b (zeroV A) then [] else (c, b) # populated A ls)"
  by (simp add: populated_def)

lemma populated_append:
  assumes "\<forall>e\<in>set xs. \<not> eqV A (snd e) (zeroV A)" and "eqV A z (zeroV A)"
  shows "populated A (xs @ replicate k (c, z)) = xs"
proof -
  have "takeWhile (\<lambda>e. \<not> eqV A (snd e) (zeroV A)) (replicate k (c, z)) = []"
    using assms(2) by (cases k) simp_all
  then show ?thesis using assms(1) by (simp add: populated_def)
qed

section \<open>The Selector: capacity, candidates, fallback, normalisation\<close>


text \<open>
  C2 (amended). \<open>copraChooseCommunity\<close> takes no \<open>maxMembership\<close> and caps nothing: it
  writes one entry for every touched community whose weight is not below the threshold.
  With a capacity \<open>L\<close> of at least one and touched communities that index \<open>vcout\<close>, a write
  past the capacity of the Labelset happens exactly when more than \<open>L\<close> touched
  communities meet the threshold; whenever a Labelset is returned it has exactly \<open>L\<close>
  slots and at most \<open>L\<close> communities met the threshold, and one is returned whenever at
  most \<open>L\<close> do. This holds for every arithmetic of the weights.
\<close>

theorem copraChooseCommunity_capacity:
  assumes "\<forall>c\<in>set vcs. c < length vcout" and "0 < L"
  shows "(copraChooseCommunity A L u vcs vcout WTH = Inl CapacityOverflow
          \<longleftrightarrow> L < length (filter (\<lambda>c. \<not> lessV A (vcout ! c) WTH) vcs)) \<and>
         (\<forall>a. copraChooseCommunity A L u vcs vcout WTH = Inr a \<longrightarrow>
            length a = L \<and> length (filter (\<lambda>c. \<not> lessV A (vcout ! c) WTH) vcs) \<le> L) \<and>
         (length (filter (\<lambda>c. \<not> lessV A (vcout ! c) WTH) vcs) \<le> L \<longrightarrow>
            (\<exists>a. copraChooseCommunity A L u vcs vcout WTH = Inr a))"
proof -
  let ?cs = "candidates A vcout WTH vcs"
  have len: "(L < length ?cs) = (L < length (filter (\<lambda>c. \<not> lessV A (vcout ! c) WTH) vcs))"
    using length_candidates [OF assms(2), of A vcout WTH vcs] by (simp add: aboveThreshold_def)
  have eq: "copraChooseCommunity A L u vcs vcout WTH =
     (if L < length ?cs then Inl CapacityOverflow
      else if ?cs = [] then Inr (selfLabelset A L u)
      else Inr (normalized A (totalFrom A vcout (zeroV A) ?cs) (weighted vcout ?cs)
                @ replicate (L - length ?cs) (0, zeroV A)))"
    using copraChooseCommunity_eq [OF assms(1)] assms(2) by simp
  have "copraChooseCommunity A L u vcs vcout WTH = Inl CapacityOverflow \<longleftrightarrow> L < length ?cs"
    by (simp add: eq)
  moreover have "length a = L \<and> \<not> L < length ?cs"
    if "copraChooseCommunity A L u vcs vcout WTH = Inr a" for a
    using that unfolding eq
    by (auto simp: selfLabelset_def length_normalized length_weighted split: if_splits)
  moreover have "\<exists>a. copraChooseCommunity A L u vcs vcout WTH = Inr a" if "\<not> L < length ?cs"
    using that unfolding eq by simp
  ultimately show ?thesis unfolding len by (simp add: not_less)
qed

theorem copraChooseCommunity_capacity_witness:
  "(0::nat) < 8 \<and> copraChooseCommunity exactArith 8 0 [0, 1] [1, 2] 1 \<noteq> Inl CapacityOverflow"
proof -
  have h: "\<forall>c\<in>set [0, 1::nat]. c < length [1, 2 :: rat]" "(0::nat) < 8" by simp_all
  have "\<not> 8 < length (filter (\<lambda>c. \<not> lessV exactArith ([1, 2] ! c) 1) [0, 1::nat])" by simp
  then show ?thesis
    using h(2) copraChooseCommunity_capacity [OF h, of exactArith 0 1] by blast
qed

text \<open>
  Nine touched communities of weight 1 and threshold 0, capacity 8: the ninth write
  \<open>labs[n++]\<close> is past the end of the Labelset, and nothing was truncated to the eight
  heaviest.
\<close>

theorem copraChooseCommunity_overflow_counterexample:
  "copraChooseCommunity exactArith 8 0 [0, 1, 2, 3, 4, 5, 6, 7, 8] [1, 1, 1, 1, 1, 1, 1, 1, 1] 0
     = Inl CapacityOverflow"
  by code_simp

text \<open>
  C5. The claim is that, when no touched community reaches the threshold, the candidate is
  the touched community of highest accumulated weight, as the comment of the source says
  (\<open>find best label below threshold\<close>). On the touched list \<open>[0, 1]\<close> with weights 1 and
  2 and threshold 5 the source takes \<open>vcs[0]\<close>: the candidate, and the Labelset returned,
  is community 0, of weight 1, although community 1 is heavier. The list is in the order
  that the comparator of \<open>copraSortScan\<close> asks for: it puts community 0 before
  community 1 and not the reverse.
\<close>

theorem copraChooseCandidates_takes_front:
  "copraChooseCandidates exactArith 8 [0, 1] [1, 2] 5
     = Inr (1, 1, [(0, 1), (0, 0), (0, 0), (0, 0), (0, 0), (0, 0), (0, 0), (0, 0)]) \<and>
   copraChooseCommunity exactArith 8 0 [0, 1] [1, 2] 5
     = Inr [(0, 1), (0, 0), (0, 0), (0, 0), (0, 0), (0, 0), (0, 0), (0, 0)] \<and>
   [1, 2 :: rat] ! 0 < [1, 2] ! 1 \<and>
   copraSortScan_fl exactArith False [1, 2] 0 1 \<and> \<not> copraSortScan_fl exactArith False [1, 2] 1 0"
  by code_simp

text \<open>
  C6 (amended). If the touched-community set is empty, \<open>copraChooseCommunity\<close> returns
  the singleton Labelset \<open>{(u, 1)}\<close> (for a capacity of at least one), with no division;
  a vertex with no outgoing edges leaves the touched set empty in \<open>copraScanCommunities\<close>,
  so it receives this singleton. There is no guard on the total weight: when the candidate
  set is not empty, the Labelset returned holds the candidates with their weights divided
  by the total \<open>w\<close>, whatever \<open>w\<close> is, zero included. This holds for every arithmetic of
  the weights.
\<close>

theorem copraChooseCommunity_untouched:
  assumes "0 < L"
  shows "copraChooseCommunity A L u [] vcout WTH = Inr (selfLabelset A L u) \<and>
         (graph_edges x u = [] \<longrightarrow>
            copraScanCommunities A SELF ([], vcout) x u vcom = Inr ([], vcout)) \<and>
         (\<forall>n w labs. 0 < n \<and> copraChooseCandidates A L vcs vcout WTH = Inr (n, w, labs) \<longrightarrow>
            copraChooseCommunity A L u vcs vcout WTH
              = Inr (map (\<lambda>e. (fst e, divV A (snd e) w)) (take n labs) @ drop n labs))"
proof -
  have "copraChooseCommunity A L u [] vcout WTH = Inr (selfLabelset A L u)"
    using assms copraChooseCommunity_eq [of "[]" vcout A L u WTH]
    by (simp add: candidates_def aboveThreshold_def)
  moreover have "graph_edges x u = [] \<longrightarrow>
      copraScanCommunities A SELF ([], vcout) x u vcom = Inr ([], vcout)"
    by (simp add: copraScanCommunities_def)
  moreover have "copraChooseCommunity A L u vcs vcout WTH
              = Inr (map (\<lambda>e. (fst e, divV A (snd e) w)) (take n labs) @ drop n labs)"
    if "0 < n" and "copraChooseCandidates A L vcs vcout WTH = Inr (n, w, labs)" for n w labs
    using copraChooseCommunity_normalizes [OF that(2,1), of u] by (simp add: normalized_def)
  ultimately show ?thesis by blast
qed

theorem copraChooseCommunity_untouched_witness:
  "copraChooseCommunity exactArith 8 3 [] [0, 0] 0 = Inr (selfLabelset exactArith 8 3) \<and>
   copraScanCommunities exactArith False ([], [0, 0]) pathGraph 3 ownCommunities
     = Inr ([], [0, 0]) \<and>
   copraChooseCommunity exactArith 8 3 [0] [0, 0] 0
     = Inr ((0, divV exactArith 0 0) # [(0, 0), (0, 0), (0, 0), (0, 0), (0, 0), (0, 0), (0, 0)])"
proof -
  have h: "(0::nat) < 8" by simp
  have e: "graph_edges pathGraph 3 = []" by (simp add: pathGraph_def)
  have c: "(0::nat) < 1 \<and> copraChooseCandidates exactArith 8 [0] [0, 0] 0
     = Inr (1, 0, [(0, 0), (0, 0), (0, 0), (0, 0), (0, 0), (0, 0), (0, 0), (0, 0)])"
    by code_simp
  have l: "map (\<lambda>e. (fst e, divV exactArith (snd e) (0::rat)))
        (take 1 [(0::nat, 0::rat), (0, 0), (0, 0), (0, 0), (0, 0), (0, 0), (0, 0), (0, 0)])
      @ drop 1 [(0, 0), (0, 0), (0, 0), (0, 0), (0, 0), (0, 0), (0, 0), (0, 0)]
      = (0, divV exactArith 0 0) # [(0, 0), (0, 0), (0, 0), (0, 0), (0, 0), (0, 0), (0, 0)]"
    by simp
  have "copraChooseCommunity exactArith 8 3 [0] [0, 0] 0
     = Inr (map (\<lambda>e. (fst e, divV exactArith (snd e) (0::rat)))
        (take 1 [(0::nat, 0::rat), (0, 0), (0, 0), (0, 0), (0, 0), (0, 0), (0, 0), (0, 0)])
      @ drop 1 [(0, 0), (0, 0), (0, 0), (0, 0), (0, 0), (0, 0), (0, 0), (0, 0)])"
    using copraChooseCommunity_untouched [OF h, where A = exactArith and u = 3
        and vcout = "[0, 0]" and WTH = 0 and vcs = "[0]"] c
    by blast
  then have "copraChooseCommunity exactArith 8 3 [0] [0, 0] 0
     = Inr ((0, divV exactArith 0 0) # [(0, 0), (0, 0), (0, 0), (0, 0), (0, 0), (0, 0), (0, 0)])"
    unfolding l .
  then show ?thesis
    using copraChooseCommunity_untouched [OF h, where A = exactArith and u = 3
        and vcout = "[0, 0]" and WTH = 0 and x = pathGraph and SELF = False
        and vcom = ownCommunities and vcs = "[0]"] e
    by blast
qed

text \<open>
  One touched community of weight 0 and threshold 0: the candidate set is that community,
  its total weight is zero, and the Selector returns community 0 with the quotient of 0 by
  0 as coefficient (NaN over floats) instead of the singleton of vertex 1.
\<close>

theorem copraChooseCommunity_zero_total_counterexample:
  "copraChooseCandidates exactArith 8 [0] [0, 0] 0
     = Inr (1, 0, [(0, 0), (0, 0), (0, 0), (0, 0), (0, 0), (0, 0), (0, 0), (0, 0)]) \<and>
   copraChooseCommunity exactArith 8 1 [0] [0, 0] 0
     = Inr ((0, divV exactArith 0 0) # [(0, 0), (0, 0), (0, 0), (0, 0), (0, 0), (0, 0), (0, 0)]) \<and>
   copraChooseCommunity exactArith 8 1 [0] [0, 0] 0 \<noteq> Inr (selfLabelset exactArith 8 1)"
  by code_simp

text \<open>
  C7 (amended). Over exact arithmetic, for every vertex \<open>u\<close> and every invocation of
  \<open>copraChooseCommunity\<close> whose candidate set (the \<open>n\<close> entries written by steps 1 and 2)
  is not empty, has no candidate of weight zero and has a total weight \<open>w\<close> other than zero:
  a Labelset of \<open>L\<close> slots is returned, \<open>w\<close> is the sum of the candidates' accumulated
  weights, the populated entries of the result (those before the first zero coefficient)
  are its first \<open>n\<close> entries, entry \<open>i < n\<close> being candidate \<open>i\<close> with its accumulated
  weight divided by \<open>w\<close>, and the coefficients of the populated entries sum to 1. Nothing
  is stated over floats, where the total can overflow and the quotients are rounded.
\<close>

theorem copraChooseCommunity_sums_to_one:
  assumes "copraChooseCandidates exactArith L vcs vcout WTH = Inr (n, w, labs)"
    and "0 < n" and "w \<noteq> 0" and "\<forall>i<n. snd (labs ! i) \<noteq> 0"
  shows "\<exists>a. copraChooseCommunity exactArith L u vcs vcout WTH = Inr a \<and> length a = L \<and> n \<le> L \<and>
           w = sum_list (map (\<lambda>e. vcout ! fst e) (take n labs)) \<and>
           populated exactArith a = take n a \<and>
           (\<forall>i<n. a ! i = (fst (labs ! i), vcout ! fst (labs ! i) / w)) \<and>
           sum_list (map snd (populated exactArith a)) = 1"
proof -
  let ?cs = "candidates exactArith vcout WTH vcs"
  let ?a = "normalized exactArith w (weighted vcout ?cs) @ replicate (L - length ?cs) (0, 0)"
  have r: "\<forall>c\<in>set vcs. c < length vcout"
    using assms(1) by (rule copraChooseCandidates_in_range)
  have c: "length ?cs \<le> L" "n = length ?cs" "w = totalFrom exactArith vcout 0 ?cs"
    "labs = weighted vcout ?cs @ replicate (L - length ?cs) (0, 0)"
    using assms(1) unfolding copraChooseCandidates_eq [OF r]
    by (auto simp: exactArith_def split: if_splits)
  have a: "copraChooseCommunity exactArith L u vcs vcout WTH = Inr ?a"
    using copraChooseCommunity_normalizes [OF assms(1,2), of u] c(2,4)
    by (simp add: length_weighted)
  have la: "length ?a = L" using c(1) by (simp add: length_normalized length_weighted)
  have w: "w = sum_list (map (\<lambda>e. vcout ! fst e) (take n labs))"
    unfolding c(2,4) using c(3) by (simp add: totalFrom_exact weighted_def comp_def)
  have nz: "\<forall>e\<in>set (normalized exactArith w (weighted vcout ?cs)).
      \<not> eqV exactArith (snd e) (zeroV exactArith)"
  proof
    fix e assume "e \<in> set (normalized exactArith w (weighted vcout ?cs))"
    then obtain i where i: "i < length ?cs" and e: "e = (?cs ! i, vcout ! (?cs ! i) / w)"
      by (auto simp: normalized_def weighted_def exactArith_def in_set_conv_nth)
    have "snd (labs ! i) \<noteq> 0" using assms(4) i c(2) by simp
    then have "vcout ! (?cs ! i) \<noteq> 0"
      using i unfolding c(4) by (simp add: nth_append weighted_def)
    then show "\<not> eqV exactArith (snd e) (zeroV exactArith)"
      using assms(3) e by (simp add: exactArith_def)
  qed
  have p: "populated exactArith ?a = normalized exactArith w (weighted vcout ?cs)"
    using populated_append [OF nz, of 0 "L - length ?cs" 0] by (simp add: exactArith_def)
  have t: "take n ?a = normalized exactArith w (weighted vcout ?cs)"
    unfolding c(2) by (simp add: length_normalized length_weighted)
  have e: "\<forall>i<n. ?a ! i = (fst (labs ! i), vcout ! fst (labs ! i) / w)"
    unfolding c(2,4) by (simp add: normalized_def weighted_def nth_append exactArith_def)
  have "sum_list (map snd (normalized exactArith w (weighted vcout ?cs))) = 1"
    using assms(3) c(3)
    by (simp add: sum_normalized_exact totalFrom_exact weighted_def comp_def)
  then have s: "sum_list (map snd (populated exactArith ?a)) = 1" unfolding p .
  have "n \<le> L" using c(1,2) by simp
  then show ?thesis using a la w p t e s by (metis (no_types, lifting))
qed

theorem copraChooseCommunity_sums_to_one_witness:
  "\<exists>a. copraChooseCommunity exactArith 8 0 [0, 1] [1, 3] 1 = Inr a \<and>
     sum_list (map snd (populated exactArith a)) = 1"
proof -
  have c: "copraChooseCandidates exactArith 8 [0, 1] [1, 3] 1
     = Inr (2, 4, [(0, 1), (1, 3), (0, 0), (0, 0), (0, 0), (0, 0), (0, 0), (0, 0)])"
    by code_simp
  have h: "(0::nat) < 2" "(4::rat) \<noteq> 0" by simp_all
  have z: "\<forall>i<2. snd ([(0::nat, 1::rat), (1, 3), (0, 0), (0, 0), (0, 0), (0, 0), (0, 0), (0, 0)] ! i)
      \<noteq> 0"
    by (simp add: less_Suc_eq numeral_2_eq_2)
  show ?thesis using copraChooseCommunity_sums_to_one [OF c h z, of 0] by blast
qed

text \<open>
  Touched list \<open>[0, 1]\<close> with weights 0 and 3, threshold 0: the candidate set has two
  entries and total weight 3, the Labelset returned is \<open>(0, 0), (1, 1)\<close> followed by
  empty slots, and its first coefficient is the zero that ends the populated entries: no
  entry is populated and their coefficients sum to 0.
\<close>

theorem copraChooseCommunity_sentinel_counterexample:
  "copraChooseCandidates exactArith 8 [0, 1] [0, 3] 0
     = Inr (2, 3, [(0, 0), (1, 3), (0, 0), (0, 0), (0, 0), (0, 0), (0, 0), (0, 0)]) \<and>
   copraChooseCommunity exactArith 8 0 [0, 1] [0, 3] 0
     = Inr [(0, 0), (1, 1), (0, 0), (0, 0), (0, 0), (0, 0), (0, 0), (0, 0)] \<and>
   populated exactArith [(0, 0), (1, 1), (0, 0), (0, 0), (0, 0), (0, 0), (0, 0), (0, 0)] = [] \<and>
   sum_list (map snd
     (populated exactArith [(0, 0), (1, 1), (0, 0), (0, 0), (0, 0), (0, 0), (0, 0), (0, 0)])) = 0"
  by code_simp

section \<open>The Scanner and the sort comparator\<close>


text \<open>
  C1. The claim is that the scanner adds \<open>w*b\<close> for the entries \<open>(c, b)\<close> of the Labelset of
  the neighbor \<open>v\<close>. On the edge from vertex 0 to vertex 1 with weight 1, each vertex in its
  own community, the source credits community 0, the community of the source vertex \<open>u\<close>;
  the entries of the Labelset of \<open>v\<close> would credit community 1.
\<close>

theorem copraScanCommunity_reads_source:
  "copraScanCommunity exactArith False ([], [0, 0]) 0 1 1
     [selfLabelset exactArith 8 0, selfLabelset exactArith 8 1]
     = Inr ([0], [1, 0]) \<and>
   scanLabels exactArith 1 ([], [0, 0])
     ([selfLabelset exactArith 8 0, selfLabelset exactArith 8 1] ! 1) = Inr ([1], [0, 1])"
  by code_simp






section \<open>Delta-screening: flags are only ever set\<close>


lemma flagsLe_iff: "flagsLe xs ys \<longleftrightarrow> length xs = length ys \<and> (\<forall>i<length xs. xs ! i \<longrightarrow> ys ! i)"
  by (auto simp: flagsLe_def list_all2_conv_all_nth)

lemma flagsLe_refl: "flagsLe xs xs"
  by (simp add: flagsLe_iff)

lemma flagsLe_trans: "flagsLe xs ys \<Longrightarrow> flagsLe ys zs \<Longrightarrow> flagsLe xs zs"
  by (simp add: flagsLe_iff)

lemma flagsLe_update: "flagsLe xs (xs[i := True])"
  by (cases "i < length xs") (auto simp: flagsLe_iff nth_list_update)

lemma flagsLe_length: "flagsLe xs ys \<Longrightarrow> length ys = length xs"
  by (simp add: flagsLe_iff)

lemma stateLe_refl: "stateLe st st"
  by (simp add: stateLe_def flagsLe_refl)

lemma stateLe_trans: "stateLe a b \<Longrightarrow> stateLe b c \<Longrightarrow> stateLe a c"
  unfolding stateLe_def by (blast intro: flagsLe_trans)

lemma stateLe_lengths:
  "stateLe st st' \<Longrightarrow> length (vertices st') = length (vertices st) \<and>
     length (neighbors st') = length (neighbors st) \<and>
     length (communities st') = length (communities st)"
  by (simp add: stateLe_def flagsLe_iff)

lemma stateLe_scratch: "stateLe (st\<lparr>scratch := s\<rparr>) st' = stateLe st st'"
  by (simp add: stateLe_def)

lemma vecSet_Inr: "vecSet xs i a = Inr ys \<longleftrightarrow> i < length xs \<and> ys = xs[i := a]"
  by (auto simp: vecSet_def)

lemma vecGet_Inr: "vecGet xs i = Inr a \<longleftrightarrow> i < length xs \<and> a = xs ! i"
  by (auto simp: vecGet_def)

lemma markChanged_Inr:
  "markChanged st u c = Inr st' \<longleftrightarrow>
     u < length (vertices st) \<and> u < length (neighbors st) \<and> c < length (communities st) \<and>
     st' = st\<lparr>vertices := (vertices st)[u := True], neighbors := (neighbors st)[u := True],
              communities := (communities st)[c := True]\<rparr>"
  by (auto simp: markChanged_def vecSet_def)

lemma markChanged_le: "markChanged st u c = Inr st' \<Longrightarrow> stateLe st st'"
  by (auto simp: markChanged_Inr stateLe_def flagsLe_update)

lemma marked_le: "stateLe st st' \<Longrightarrow> marked st u c \<Longrightarrow> marked st' u c"
  by (simp add: marked_def stateLe_def flagsLe_iff)

lemma markChanged_marked: "markChanged st u c = Inr st' \<Longrightarrow> marked st' u c"
  by (auto simp: markChanged_Inr marked_def)

lemma dsDeletions_le: "dsDeletions vcom st ds = Inr st' \<Longrightarrow> stateLe st st'"
proof (induction ds arbitrary: st)
  case Nil
  then show ?case by (simp add: stateLe_refl)
next
  case (Cons e ds)
  obtain u v where e: "e = (u, v)" by (cases e)
  show ?case
    using Cons.prems unfolding e
    by (auto split: sum.splits if_splits dest!: Cons.IH markChanged_le intro: stateLe_trans)
qed

lemma dsDeletions_scratch: "dsDeletions vcom st ds = Inr st' \<Longrightarrow> scratch st' = scratch st"
proof (induction ds arbitrary: st)
  case Nil
  then show ?case by simp
next
  case (Cons e ds)
  obtain a b where e: "e = (a, b)" by (cases e)
  show ?case
    using Cons.prems unfolding e
    by (auto simp: markChanged_Inr split: sum.splits if_splits dest!: Cons.IH)
qed

lemma dsDeletions_marks:
  assumes "dsDeletions vcom st ds = Inr st'" and "(u, v) \<in> set ds"
    and "primaryCommunity vcom u = Inr c" and "primaryCommunity vcom v = Inr c"
  shows "marked st' u c"
  using assms(1,2)
proof (induction ds arbitrary: st)
  case Nil
  then show ?case by simp
next
  case (Cons e ds)
  obtain a b where e: "e = (a, b)" by (cases e)
  show ?case
  proof (cases "e = (u, v)")
    case True
    then obtain st1 where m: "markChanged st u c = Inr st1" and r: "dsDeletions vcom st1 ds = Inr st'"
      using Cons.prems(1) assms(3,4) by (auto split: sum.splits)
    show ?thesis
      using markChanged_marked [OF m] dsDeletions_le [OF r] by (rule marked_le [rotated])
  next
    case False
    then have in_ds: "(u, v) \<in> set ds" using Cons.prems(2) by simp
    show ?thesis
      using Cons.prems(1) in_ds unfolding e
      by (auto split: sum.splits if_splits dest: Cons.IH)
  qed
qed

lemma sameCommunity_iff:
  "primaryCommunity vcom a = Inr cu \<Longrightarrow> primaryCommunity vcom b = Inr cv \<Longrightarrow>
     sameCommunity vcom (a, b) = (cu = cv)"
  by (simp add: sameCommunity_def)

lemma dsDeletions_filter:
  "dsDeletions vcom st ds = Inr st' \<Longrightarrow> dsDeletions vcom st (filter (sameCommunity vcom) ds) = Inr st'"
proof (induction ds arbitrary: st)
  case Nil
  then show ?case by simp
next
  case (Cons e ds)
  obtain a b where e: "e = (a, b)" by (cases e)
  obtain cu cv where p: "primaryCommunity vcom a = Inr cu" "primaryCommunity vcom b = Inr cv"
    using Cons.prems unfolding e by (auto split: sum.splits)
  show ?case
  proof (cases "cu = cv")
    case True
    then obtain st1 where m: "markChanged st a cv = Inr st1" and r: "dsDeletions vcom st1 ds = Inr st'"
      using Cons.prems p unfolding e by (auto split: sum.splits)
    show ?thesis
      using True p m Cons.IH [OF r] unfolding e by (simp add: sameCommunity_iff [OF p])
  next
    case False
    then have "dsDeletions vcom st ds = Inr st'"
      using Cons.prems p unfolding e by simp
    then show ?thesis
      using False p Cons.IH unfolding e by (simp add: sameCommunity_iff [OF p])
  qed
qed

lemma dsChooseRun_le: "dsChooseRun A L vcom vtot B st u = Inr st' \<Longrightarrow> stateLe st st'"
  by (auto simp: dsChooseRun_def stateLe_refl split: sum.splits list.splits if_splits
      dest: markChanged_le)

lemma dsInsertions_le: "dsInsertions A L vcom vtot B st ins = Inr st' \<Longrightarrow> stateLe st st'"
proof (induction A L vcom vtot B st ins rule: dsInsertions.induct)
  case (1 A L vcom vtot B st)
  then show ?case by (simp add: stateLe_refl)
next
  case (2 A L vcom vtot B st i "is")
  from "2.prems" obtain s0 s1 st1 where
    s0: "copraClearScan A (scratch st) = Inr s0" and
    s1: "dsScanRun A vcom (fst i) s0 (i # takeWhile (\<lambda>j. fst j = fst i) is) = Inr s1" and
    st1: "dsChooseRun A L vcom vtot B (st\<lparr>scratch := s1\<rparr>) (fst i) = Inr st1" and
    r: "dsInsertions A L vcom vtot B st1 (dropWhile (\<lambda>j. fst j = fst i) is) = Inr st'"
    by (auto split: sum.splits)
  have "stateLe st st1" using dsChooseRun_le [OF st1] by (simp add: stateLe_scratch)
  moreover have "stateLe st1 st'" using "2.IH" [OF s0 s1 st1 r] .
  ultimately show ?case by (rule stateLe_trans)
qed

section \<open>Delta-screening: the pass over the vertex keys\<close>


lemma markAll_Inr:
  "markAll vs ks = Inr vs' \<Longrightarrow> flagsLe vs vs' \<and> (\<forall>k\<in>set ks. k < length vs \<and> vs' ! k)"
proof (induction ks arbitrary: vs)
  case Nil
  then show ?case by (simp add: flagsLe_refl)
next
  case (Cons k ks)
  from Cons.prems have k: "k < length vs" and r: "markAll (vs[k := True]) ks = Inr vs'"
    by (auto simp: vecSet_def split: if_splits)
  have ih: "flagsLe (vs[k := True]) vs'" "\<forall>j\<in>set ks. j < length vs \<and> vs' ! j"
    using Cons.IH [OF r] by simp_all
  have "flagsLe vs vs'" using flagsLe_update ih(1) by (rule flagsLe_trans)
  moreover have "vs' ! k" using ih(1) k by (simp add: flagsLe_iff)
  ultimately show ?case using k ih(2) by simp
qed

lemma markAll_total: "\<forall>k\<in>set ks. k < length vs \<Longrightarrow> \<exists>vs'. markAll vs ks = Inr vs'"
  by (induction ks arbitrary: vs) (simp_all add: vecSet_def)

lemma dsPropagate_step:
  assumes "dsPropagate x vcom nbs cms vs (u # us) = Inr vs'"
  shows "\<exists>cu vs2. primaryCommunity vcom u = Inr cu \<and> u < length nbs \<and> cu < length cms \<and>
     flagsLe vs vs2 \<and> dsPropagate x vcom nbs cms vs2 us = Inr vs' \<and>
     (nbs ! u \<longrightarrow> (\<forall>t\<in>fst ` set (graph_edges x u). t < length vs \<and> vs2 ! t)) \<and>
     (cms ! cu \<longrightarrow> u < length vs \<and> vs2 ! u)"
proof -
  from assms obtain cu vs1 vs2 where
    cu: "primaryCommunity vcom u = Inr cu" and nb: "u < length nbs" and
    vs1: "(if nbs ! u then markAll vs (map fst (graph_edges x u)) else Inr vs) = Inr vs1" and
    cm: "cu < length cms" and
    vs2: "(if cms ! cu then vecSet vs1 u True else Inr vs1) = Inr vs2" and
    r: "dsPropagate x vcom nbs cms vs2 us = Inr vs'"
    by (auto simp: vecGet_def split: sum.splits if_splits)
  have a: "flagsLe vs vs1"
    using vs1 markAll_Inr [of vs "map fst (graph_edges x u)" vs1]
    by (cases "nbs ! u") (simp_all add: flagsLe_refl)
  have b: "\<forall>t\<in>fst ` set (graph_edges x u). t < length vs \<and> vs1 ! t" if "nbs ! u"
    using vs1 that markAll_Inr [of vs "map fst (graph_edges x u)" vs1] by simp
  have c: "flagsLe vs1 vs2"
    using vs2 by (cases "cms ! cu") (auto simp: flagsLe_refl flagsLe_update vecSet_Inr)
  have d: "u < length vs1 \<and> vs2 ! u" if "cms ! cu"
    using vs2 that by (auto simp: vecSet_Inr)
  have "flagsLe vs vs2" using a c by (rule flagsLe_trans)
  moreover have "\<forall>t\<in>fst ` set (graph_edges x u). t < length vs \<and> vs2 ! t" if "nbs ! u"
    using b [OF that] c a by (auto simp: flagsLe_iff)
  moreover have "u < length vs \<and> vs2 ! u" if "cms ! cu"
    using d [OF that] a by (simp add: flagsLe_iff)
  ultimately show ?thesis using cu nb cm r by blast
qed

lemma dsPropagate_Inr:
  assumes "dsPropagate x vcom nbs cms vs us = Inr vs'"
  shows "flagsLe vs vs' \<and>
     (\<forall>u\<in>set us. nbs ! u \<longrightarrow> (\<forall>t\<in>fst ` set (graph_edges x u). vs' ! t)) \<and>
     (\<forall>u\<in>set us. \<forall>c. primaryCommunity vcom u = Inr c \<longrightarrow> cms ! c \<longrightarrow> vs' ! u)"
  using assms
proof (induction us arbitrary: vs)
  case Nil
  then show ?case by (simp add: flagsLe_refl)
next
  case (Cons u us)
  obtain cu vs2 where
    cu: "primaryCommunity vcom u = Inr cu" and
    le: "flagsLe vs vs2" and r: "dsPropagate x vcom nbs cms vs2 us = Inr vs'" and
    nb: "nbs ! u \<longrightarrow> (\<forall>t\<in>fst ` set (graph_edges x u). t < length vs \<and> vs2 ! t)" and
    cm: "cms ! cu \<longrightarrow> u < length vs \<and> vs2 ! u"
    using dsPropagate_step [OF Cons.prems] by blast
  have ih: "flagsLe vs2 vs'"
    "\<forall>u\<in>set us. nbs ! u \<longrightarrow> (\<forall>t\<in>fst ` set (graph_edges x u). vs' ! t)"
    "\<forall>u\<in>set us. \<forall>c. primaryCommunity vcom u = Inr c \<longrightarrow> cms ! c \<longrightarrow> vs' ! u"
    using Cons.IH [OF r] by simp_all
  have len: "length vs2 = length vs" using le by (rule flagsLe_length)
  have "flagsLe vs vs'" using le ih(1) by (rule flagsLe_trans)
  moreover have "\<forall>t\<in>fst ` set (graph_edges x u). vs' ! t" if "nbs ! u"
    using nb that ih(1) len by (auto simp: flagsLe_iff)
  moreover have "vs' ! u" if "primaryCommunity vcom u = Inr c" "cms ! c" for c
    using cm that cu ih(1) len by (auto simp: flagsLe_iff)
  ultimately show ?case using ih(2,3) by simp
qed

lemma inTable_Inr:
  "inTable x vcom u \<longleftrightarrow> (\<exists>c. primaryCommunity vcom u = Inr c \<and> u < graph_span x \<and> c < graph_span x)"
  by (auto simp: inTable_def split: sum.splits)

lemma inTable_vcom:
  "inTable x vcom u \<Longrightarrow> u < length vcom \<and> vecGet vcom u = Inr (vcom ! u)"
  by (auto simp: inTable_def primaryCommunity_def vecGet_def split: sum.splits if_splits)

lemma dsPropagate_unmarked:
  assumes "\<forall>u\<in>set us. inTable x vcom u"
  shows "dsPropagate x vcom (replicate (graph_span x) False) (replicate (graph_span x) False) vs us
     = Inr vs"
  using assms
proof (induction us)
  case Nil
  then show ?case by simp
next
  case (Cons u us)
  then obtain c where "primaryCommunity vcom u = Inr c" "u < graph_span x" "c < graph_span x"
    by (auto simp: inTable_Inr)
  then show ?case using Cons by (simp add: vecGet_def)
qed

lemma dsPropagate_total:
  assumes "\<forall>u\<in>set us. inTable x vcom u \<and> (\<forall>e\<in>set (graph_edges x u). fst e < graph_span x)"
    and "length nbs = graph_span x" and "length cms = graph_span x" and "length vs = graph_span x"
  shows "\<exists>vs'. dsPropagate x vcom nbs cms vs us = Inr vs'"
  using assms
proof (induction us arbitrary: vs)
  case Nil
  then show ?case by simp
next
  case (Cons u us)
  obtain c where c: "primaryCommunity vcom u = Inr c" "u < graph_span x" "c < graph_span x"
    using Cons.prems(1) by (auto simp: inTable_Inr)
  have "\<forall>k\<in>set (map fst (graph_edges x u)). k < length vs"
    using Cons.prems(1,4) by auto
  then have "\<exists>vs1. markAll vs (map fst (graph_edges x u)) = Inr vs1"
    by (rule markAll_total)
  then obtain vs1 where vs1: "(if nbs ! u then markAll vs (map fst (graph_edges x u)) else Inr vs) = Inr vs1"
    by (cases "nbs ! u") auto
  have "flagsLe vs vs1"
    using vs1 markAll_Inr [of vs "map fst (graph_edges x u)" vs1]
    by (cases "nbs ! u") (simp_all add: flagsLe_refl)
  then have l1: "length vs1 = graph_span x"
    using Cons.prems(4) by (simp add: flagsLe_iff)
  obtain vs2 where vs2: "(if cms ! c then vecSet vs1 u True else Inr vs1) = Inr vs2"
    "length vs2 = graph_span x"
    using l1 c(2) by (cases "cms ! c") (auto simp: vecSet_def)
  obtain vs' where "dsPropagate x vcom nbs cms vs2 us = Inr vs'"
    using Cons.IH [of vs2] Cons.prems vs2(2) by auto
  then show ?case
    using c vs1 vs2(1) Cons.prems(2,3) by (simp add: vecGet_def)
qed

lemma dsDeletions_total:
  assumes "batchInRange x vcom ds"
    and "length (vertices st) = graph_span x" and "length (neighbors st) = graph_span x"
    and "length (communities st) = graph_span x"
  shows "\<exists>st'. dsDeletions vcom st ds = Inr st'"
  using assms
proof (induction ds arbitrary: st)
  case Nil
  then show ?case by simp
next
  case (Cons e ds)
  obtain a b where e: "e = (a, b)" by (cases e)
  obtain cu cv where p: "primaryCommunity vcom a = Inr cu" "a < graph_span x"
    "primaryCommunity vcom b = Inr cv" "cv < graph_span x"
    using Cons.prems(1) unfolding e by (auto simp: batchInRange_def inTable_Inr)
  have ds: "batchInRange x vcom ds" using Cons.prems(1) by (simp add: batchInRange_def)
  show ?case
  proof (cases "cu = cv")
    case False
    then show ?thesis using p Cons.IH [OF ds Cons.prems(2,3,4)] unfolding e by simp
  next
    case True
    let ?st = "st\<lparr>vertices := (vertices st)[a := True], neighbors := (neighbors st)[a := True],
              communities := (communities st)[cv := True]\<rparr>"
    have m: "markChanged st a cv = Inr ?st"
      using p Cons.prems(2,3,4) by (simp add: markChanged_Inr)
    obtain st' where "dsDeletions vcom ?st ds = Inr st'"
      using Cons.IH [OF ds, of ?st] Cons.prems(2,3,4) by auto
    then show ?thesis using True p m unfolding e by simp
  qed
qed

section \<open>Delta-screening: the insertion loop returns\<close>


lemma scanLabels_total:
  assumes "\<forall>e\<in>set (populated A ls). fst e < length vcout" and "\<forall>c\<in>set vcs. c < length vcout"
  shows "\<exists>vcs' vcout'. scanLabels A w (vcs, vcout) ls = Inr (vcs', vcout') \<and>
     length vcout' = length vcout \<and> (\<forall>c\<in>set vcs'. c < length vcout) \<and>
     length vcs' \<le> length vcs + length (populated A ls)"
  using assms
proof (induction ls arbitrary: vcs vcout)
  case Nil
  then show ?case by (simp add: populated_def)
next
  case (Cons e ls)
  obtain c b where e: "e = (c, b)" by (cases e)
  show ?case
  proof (cases "eqV A b (zeroV A)")
    case True
    then show ?thesis using Cons.prems(2) unfolding e by (simp add: populated_Cons)
  next
    case False
    let ?vcs = "if eqV A (vcout ! c) (zeroV A) then vcs @ [c] else vcs"
    let ?vcout = "vcout[c := addV A (vcout ! c) (mulV A w b)]"
    have c: "c < length vcout"
      and ls: "\<forall>e\<in>set (populated A ls). fst e < length ?vcout"
      using Cons.prems(1) False unfolding e by (simp_all add: populated_Cons)
    have vcs: "\<forall>c\<in>set ?vcs. c < length ?vcout" using Cons.prems(2) c by simp
    obtain vcs' vcout' where r: "scanLabels A w (?vcs, ?vcout) ls = Inr (vcs', vcout')"
      "length vcout' = length ?vcout" "\<forall>c\<in>set vcs'. c < length ?vcout"
      "length vcs' \<le> length ?vcs + length (populated A ls)"
      using Cons.IH [OF ls vcs] by blast
    have "scanLabels A w (vcs, vcout) (e # ls) = Inr (vcs', vcout')"
      using r(1) False c unfolding e by simp
    moreover have "length vcs' \<le> length vcs + length (populated A (e # ls))"
      using r(4) False unfolding e by (simp add: populated_Cons split: if_splits)
    ultimately show ?thesis using r(2,3) by simp
  qed
qed

lemma clearWeights_total:
  "\<forall>c\<in>set cs. c < length vcout \<Longrightarrow>
     \<exists>vcout'. clearWeights A vcout cs = Inr vcout' \<and> length vcout' = length vcout"
proof (induction cs arbitrary: vcout)
  case Nil
  then show ?case by simp
next
  case (Cons c cs)
  have "\<forall>d\<in>set cs. d < length (vcout[c := zeroV A])" using Cons.prems by simp
  then obtain vcout' where "clearWeights A (vcout[c := zeroV A]) cs = Inr vcout'"
    "length vcout' = length (vcout[c := zeroV A])"
    using Cons.IH by blast
  then show ?case using Cons.prems by simp
qed

lemma copraClearScan_total:
  assumes "\<forall>c\<in>set (fst s). c < length (snd s)"
  shows "\<exists>vcout'. copraClearScan A s = Inr ([], vcout') \<and> length vcout' = length (snd s)"
  using clearWeights_total [OF assms, of A] by (auto simp: copraClearScan_def)

lemma dsScanRun_total:
  assumes "\<forall>i\<in>set es. inTable x vcom u \<and> inTable x vcom (fst (snd i))"
    and "\<forall>e\<in>set (populated A (vcom ! u)). fst e < graph_span x"
    and "length (snd s) = graph_span x" and "\<forall>c\<in>set (fst s). c < graph_span x"
  shows "\<exists>s'. dsScanRun A vcom u s es = Inr s' \<and> length (snd s') = graph_span x \<and>
     (\<forall>c\<in>set (fst s'). c < graph_span x) \<and>
     length (fst s') \<le> length (fst s) + length es * length (populated A (vcom ! u))"
  using assms
proof (induction es arbitrary: s)
  case Nil
  then show ?case by simp
next
  case (Cons i es)
  obtain u' v w where i: "i = (u', v, w)" by (cases i)
  obtain vcs vcout where s: "s = (vcs, vcout)" by (cases s)
  obtain cu cv where p: "primaryCommunity vcom u = Inr cu" "primaryCommunity vcom v = Inr cv"
    using Cons.prems(1) unfolding i by (auto simp: inTable_Inr)
  have u: "vecGet vcom u = Inr (vcom ! u)"
    using Cons.prems(1) inTable_vcom [of x vcom u] by simp
  have es: "\<forall>i\<in>set es. inTable x vcom u \<and> inTable x vcom (fst (snd i))"
    using Cons.prems(1) by simp
  show ?case
  proof (cases "cu = cv \<or> u = v")
    case True
    then have "dsScanRun A vcom u s (i # es) = dsScanRun A vcom u s es"
      using p unfolding i by (auto simp: copraScanCommunity_def)
    then show ?thesis
      using Cons.IH [OF es Cons.prems(2,3,4)] by auto
  next
    case False
    have a: "\<forall>e\<in>set (populated A (vcom ! u)). fst e < length vcout"
      and b: "\<forall>c\<in>set vcs. c < length vcout"
      using Cons.prems(2,3,4) unfolding s by simp_all
    obtain vcs' vcout' where r: "scanLabels A w (vcs, vcout) (vcom ! u) = Inr (vcs', vcout')"
      "length vcout' = length vcout" "\<forall>c\<in>set vcs'. c < length vcout"
      "length vcs' \<le> length vcs + length (populated A (vcom ! u))"
      using scanLabels_total [OF a b, of w] by blast
    have step: "dsScanRun A vcom u s (i # es) = dsScanRun A vcom u (vcs', vcout') es"
      using False p u r(1) unfolding i s by (simp add: copraScanCommunity_def)
    have l: "length (snd (vcs', vcout')) = graph_span x"
      and c: "\<forall>c\<in>set (fst (vcs', vcout')). c < graph_span x"
      using r(2,3) Cons.prems(3) unfolding s by simp_all
    obtain s' where s': "dsScanRun A vcom u (vcs', vcout') es = Inr s'"
      "length (snd s') = graph_span x" "\<forall>c\<in>set (fst s'). c < graph_span x"
      "length (fst s') \<le> length (fst (vcs', vcout')) + length es * length (populated A (vcom ! u))"
      using Cons.IH [OF es Cons.prems(2) l c] by blast
    have "length (fst s') \<le> length (fst s) + length (i # es) * length (populated A (vcom ! u))"
      using s'(4) r(4) unfolding s by simp
    then show ?thesis using step s'(1,2,3) by simp
  qed
qed

lemma dsChooseRun_total:
  assumes "stateInRange x st" and "length (fst (scratch st)) \<le> L" and "0 < L"
    and "inTable x vcom u" and "u < length vtot"
  shows "\<exists>st'. dsChooseRun A L vcom vtot B st u = Inr st' \<and> stateInRange x st'"
proof -
  obtain cu where cu: "primaryCommunity vcom u = Inr cu" "u < graph_span x"
    using assms(4) by (auto simp: inTable_Inr)
  have r: "\<forall>c\<in>set (fst (scratch st)). c < length (snd (scratch st))"
    using assms(1) by (simp add: stateInRange_def)
  obtain cl b ls where c: "copraChooseCommunity A L u (fst (scratch st)) (snd (scratch st))
      (mulV A B (vtot ! u)) = Inr ((cl, b) # ls)" and cl: "cl = u \<or> cl \<in> set (fst (scratch st))"
    using copraChooseCommunity_first [OF r assms(2,3)] by blast
  have cls: "cl < graph_span x" using cl cu(2) assms(1) by (auto simp: stateInRange_def)
  show ?thesis
  proof (cases "cl = cu")
    case True
    then show ?thesis using c cu assms(1,5) by (simp add: dsChooseRun_def vecGet_def)
  next
    case False
    let ?st = "st\<lparr>vertices := (vertices st)[u := True], neighbors := (neighbors st)[u := True],
              communities := (communities st)[cl := True]\<rparr>"
    have "markChanged st u cl = Inr ?st"
      using cu(2) cls assms(1) by (simp add: markChanged_Inr stateInRange_def)
    moreover have "stateInRange x ?st" using assms(1) by (simp add: stateInRange_def)
    ultimately show ?thesis using False c cu assms(5) by (simp add: dsChooseRun_def vecGet_def)
  qed
qed

lemma length_takeWhile_filter: "length (takeWhile P xs) \<le> length (filter P xs)"
  by (induction xs) simp_all

lemma length_filter_dropWhile: "length (filter Q (dropWhile P xs)) \<le> length (filter Q xs)"
  by (induction xs) (simp_all add: le_SucI)

lemma dsInsertions_total:
  assumes "stateInRange x st" and "0 < L"
    and "\<forall>i\<in>set ins. insertionInRange A L x vcom vtot all i"
    and "\<forall>u. length (filter (\<lambda>j. fst j = u) ins) \<le> length (filter (\<lambda>j. fst j = u) all)"
  shows "\<exists>st'. dsInsertions A L vcom vtot B st ins = Inr st'"
  using assms
proof (induction A L vcom vtot B st ins rule: dsInsertions.induct)
  case (1 A L vcom vtot B st)
  then show ?case by simp
next
  case (2 A L vcom vtot B st i "is")
  let ?P = "\<lambda>j. fst j = fst i"
  let ?run = "i # takeWhile ?P is"
  let ?p = "length (populated A (vcom ! fst i))"
  have i: "inTable x vcom (fst i)" "fst i < length vtot"
    "\<forall>e\<in>set (populated A (vcom ! fst i)). fst e < graph_span x"
    "length (filter ?P all) * ?p \<le> L"
    using "2.prems"(3) by (simp_all add: insertionInRange_def list_all_iff)
  obtain vcout0 where s0: "copraClearScan A (scratch st) = Inr ([], vcout0)"
    and l0: "length vcout0 = graph_span x"
    using copraClearScan_total [of "scratch st" A] "2.prems"(1)
    by (auto simp: stateInRange_def)
  have run: "\<forall>j\<in>set ?run. inTable x vcom (fst i) \<and> inTable x vcom (fst (snd j))"
    using "2.prems"(3) i(1) by (auto simp: insertionInRange_def dest: set_takeWhileD)
  obtain s1 where s1: "dsScanRun A vcom (fst i) ([], vcout0) ?run = Inr s1"
    "length (snd s1) = graph_span x" "\<forall>c\<in>set (fst s1). c < graph_span x"
    "length (fst s1) \<le> length (fst ([]::nat list, vcout0)) + length ?run * ?p"
    using dsScanRun_total [OF run i(3), of "([], vcout0)"] l0 by auto
  have "length ?run \<le> length (filter ?P (i # is))"
    using length_takeWhile_filter [of ?P "is"] by simp
  also have "\<dots> \<le> length (filter ?P all)" using "2.prems"(4) by blast
  finally have "length ?run * ?p \<le> L"
    using i(4) by (meson le_trans mult_le_mono1)
  then have cap: "length (fst (scratch (st\<lparr>scratch := s1\<rparr>))) \<le> L" using s1(4) by simp
  have inr: "stateInRange x (st\<lparr>scratch := s1\<rparr>)"
    using "2.prems"(1) s1(2,3) by (simp add: stateInRange_def)
  obtain st1 where st1: "dsChooseRun A L vcom vtot B (st\<lparr>scratch := s1\<rparr>) (fst i) = Inr st1"
    "stateInRange x st1"
    using dsChooseRun_total [OF inr cap "2.prems"(2) i(1,2)] by blast
  have rest: "\<forall>j\<in>set (dropWhile ?P is). insertionInRange A L x vcom vtot all j"
    using "2.prems"(3) by (auto dest: set_dropWhileD)
  have cnt: "\<forall>u. length (filter (\<lambda>j. fst j = u) (dropWhile ?P is))
      \<le> length (filter (\<lambda>j. fst j = u) all)"
  proof
    fix u
    have "length (filter (\<lambda>j. fst j = u) (dropWhile ?P is)) \<le> length (filter (\<lambda>j. fst j = u) is)"
      by (rule length_filter_dropWhile)
    also have "\<dots> \<le> length (filter (\<lambda>j. fst j = u) (i # is))" by simp
    also have "\<dots> \<le> length (filter (\<lambda>j. fst j = u) all)" using "2.prems"(4) by blast
    finally show "length (filter (\<lambda>j. fst j = u) (dropWhile ?P is))
      \<le> length (filter (\<lambda>j. fst j = u) all)" .
  qed
  obtain st' where "dsInsertions A L vcom vtot B st1 (dropWhile ?P is) = Inr st'"
    using "2.IH" [OF s0 s1(1) st1(1) st1(2) "2.prems"(2) rest cnt] by blast
  then show ?case using s0 s1(1) st1(1) by simp
qed

section \<open>The detectors on a batch\<close>


lemma dsInit_lengths:
  "length (vertices (dsInit A x)) = graph_span x \<and> length (neighbors (dsInit A x)) = graph_span x \<and>
   length (communities (dsInit A x)) = graph_span x"
  by (simp add: dsInit_def)

lemma deltaScreening_Inr:
  assumes "copraAffectedVerticesDeltaScreening A L x dels ins vcom vtot B = Inr flags"
  shows "\<exists>st1 st2. dsDeletions vcom (dsInit A x) dels = Inr st1 \<and>
           dsInsertions A L vcom vtot B st1 ins = Inr st2 \<and>
           dsPropagate x vcom (neighbors st2) (communities st2) (vertices st2)
             (graph_vertexKeys x) = Inr flags"
  using assms by (auto simp: copraAffectedVerticesDeltaScreening_def split: sum.splits)

lemma deltaScreening_marked:
  assumes r: "copraAffectedVerticesDeltaScreening A L x dels ins vcom vtot B = Inr flags"
    and d: "(u, v) \<in> set dels"
    and cu: "primaryCommunity vcom u = Inr c" and cv: "primaryCommunity vcom v = Inr c"
  shows "flags ! u \<and>
     (u \<in> set (graph_vertexKeys x) \<longrightarrow> (\<forall>t\<in>fst ` set (graph_edges x u). flags ! t)) \<and>
     (\<forall>t\<in>set (graph_vertexKeys x). primaryCommunity vcom t = Inr c \<longrightarrow> flags ! t)"
proof -
  obtain st1 st2 where
    st1: "dsDeletions vcom (dsInit A x) dels = Inr st1" and
    st2: "dsInsertions A L vcom vtot B st1 ins = Inr st2" and
    p: "dsPropagate x vcom (neighbors st2) (communities st2) (vertices st2)
             (graph_vertexKeys x) = Inr flags"
    using deltaScreening_Inr [OF r] by blast
  have "marked st1 u c" using st1 d cu cv by (rule dsDeletions_marks)
  then have m: "marked st2 u c" using dsInsertions_le [OF st2] by (rule marked_le [rotated])
  have pr: "flagsLe (vertices st2) flags"
    "\<forall>u\<in>set (graph_vertexKeys x). neighbors st2 ! u \<longrightarrow> (\<forall>t\<in>fst ` set (graph_edges x u). flags ! t)"
    "\<forall>u\<in>set (graph_vertexKeys x). \<forall>c. primaryCommunity vcom u = Inr c \<longrightarrow> communities st2 ! c \<longrightarrow> flags ! u"
    using dsPropagate_Inr [OF p] by simp_all
  have "flags ! u" using m pr(1) by (simp add: marked_def flagsLe_iff)
  moreover have "\<forall>t\<in>fst ` set (graph_edges x u). flags ! t" if "u \<in> set (graph_vertexKeys x)"
    using m pr(2) that by (simp add: marked_def)
  moreover have "\<forall>t\<in>set (graph_vertexKeys x). primaryCommunity vcom t = Inr c \<longrightarrow> flags ! t"
    using m pr(3) by (simp add: marked_def)
  ultimately show ?thesis by blast
qed

lemma deltaScreening_length:
  assumes "copraAffectedVerticesDeltaScreening A L x dels ins vcom vtot B = Inr flags"
  shows "length flags = graph_span x"
proof -
  obtain st1 st2 where
    st1: "dsDeletions vcom (dsInit A x) dels = Inr st1" and
    st2: "dsInsertions A L vcom vtot B st1 ins = Inr st2" and
    p: "dsPropagate x vcom (neighbors st2) (communities st2) (vertices st2)
             (graph_vertexKeys x) = Inr flags"
    using deltaScreening_Inr [OF assms] by blast
  have "length (vertices st2) = graph_span x"
    using stateLe_lengths [OF dsDeletions_le [OF st1]] stateLe_lengths [OF dsInsertions_le [OF st2]]
      dsInit_lengths [of A x] by simp
  then show ?thesis using dsPropagate_Inr [OF p] by (simp add: flagsLe_iff)
qed

lemma deltaScreening_filter:
  assumes "copraAffectedVerticesDeltaScreening A L x dels ins vcom vtot B = Inr flags"
  shows "copraAffectedVerticesDeltaScreening A L x (filter (sameCommunity vcom) dels) ins vcom vtot B
     = Inr flags"
proof -
  obtain st1 st2 where
    st1: "dsDeletions vcom (dsInit A x) dels = Inr st1" and
    st2: "dsInsertions A L vcom vtot B st1 ins = Inr st2" and
    p: "dsPropagate x vcom (neighbors st2) (communities st2) (vertices st2)
             (graph_vertexKeys x) = Inr flags"
    using deltaScreening_Inr [OF assms] by blast
  show ?thesis
    using dsDeletions_filter [OF st1] st2 p by (simp add: copraAffectedVerticesDeltaScreening_def)
qed

lemma deltaScreening_total:
  assumes t: "tableInRange x vcom" and e: "edgesInRange x" and b: "batchInRange x vcom dels"
    and i: "insertionsInRange A L x vcom vtot ins"
  shows "\<exists>flags. copraAffectedVerticesDeltaScreening A L x dels ins vcom vtot B = Inr flags"
proof -
  obtain st1 where st1: "dsDeletions vcom (dsInit A x) dels = Inr st1"
    using dsDeletions_total [OF b, of "dsInit A x"] dsInit_lengths [of A x] by blast
  have len1: "length (vertices st1) = graph_span x" "length (neighbors st1) = graph_span x"
    "length (communities st1) = graph_span x"
    using stateLe_lengths [OF dsDeletions_le [OF st1]] dsInit_lengths [of A x] by simp_all
  have "scratch st1 = ([], replicate (graph_span x) (zeroV A))"
    using dsDeletions_scratch [OF st1] by (simp add: dsInit_def)
  then have r1: "stateInRange x st1" using len1 by (simp add: stateInRange_def)
  have L: "0 < L" and ins: "\<forall>j\<in>set ins. insertionInRange A L x vcom vtot ins j"
    using i by (simp_all add: insertionsInRange_def list_all_iff)
  obtain st2 where st2: "dsInsertions A L vcom vtot B st1 ins = Inr st2"
    using dsInsertions_total [OF r1 L ins, of B] by blast
  have len2: "length (vertices st2) = graph_span x" "length (neighbors st2) = graph_span x"
    "length (communities st2) = graph_span x"
    using stateLe_lengths [OF dsInsertions_le [OF st2]] len1 by simp_all
  have "\<forall>u\<in>set (graph_vertexKeys x).
      inTable x vcom u \<and> (\<forall>e\<in>set (graph_edges x u). fst e < graph_span x)"
    using t e by (simp add: tableInRange_def edgesInRange_def list_all_iff)
  then obtain flags where
    "dsPropagate x vcom (neighbors st2) (communities st2) (vertices st2) (graph_vertexKeys x)
       = Inr flags"
    using dsPropagate_total [OF _ len2(2,3,1)] by blast
  then show ?thesis using st1 st2 by (simp add: copraAffectedVerticesDeltaScreening_def)
qed







text \<open>
  C9. Whenever \<open>copraAffectedVerticesDeltaScreening\<close> returns its flags, for every
  deletion \<open>(u, v)\<close> of the batch whose endpoints share the primary community \<open>c\<close>: \<open>u\<close> is
  flagged, every neighbor of \<open>u\<close> is flagged (\<open>u\<close> being a vertex key of the graph), and
  every vertex key whose primary community is \<open>c\<close> is flagged. Deletions whose endpoints
  have different primary communities contribute nothing: the flags are those of the batch
  without them. This holds for every arithmetic of the weights and whatever the Selector
  computes for the insertions. The detector returns for every graph, table and batch of
  deletions and insertions that stay inside the span and touch at most \<open>L\<close> communities
  for each source; what is left out is an index out of range or a write past a Labelset.
\<close>

theorem deltaScreening_deletions:
  "(tableInRange x vcom \<and> edgesInRange x \<and> batchInRange x vcom dels \<and>
      insertionsInRange A L x vcom vtot ins \<longrightarrow>
      (\<exists>flags. copraAffectedVerticesDeltaScreening A L x dels ins vcom vtot B = Inr flags)) \<and>
   (\<forall>flags. copraAffectedVerticesDeltaScreening A L x dels ins vcom vtot B = Inr flags \<longrightarrow>
      length flags = graph_span x \<and>
      (\<forall>(u, v)\<in>set dels. \<forall>c.
          primaryCommunity vcom u = Inr c \<and> primaryCommunity vcom v = Inr c \<longrightarrow>
          flags ! u \<and>
          (u \<in> set (graph_vertexKeys x) \<longrightarrow> (\<forall>t\<in>fst ` set (graph_edges x u). flags ! t)) \<and>
          (\<forall>t\<in>set (graph_vertexKeys x). primaryCommunity vcom t = Inr c \<longrightarrow> flags ! t)) \<and>
      copraAffectedVerticesDeltaScreening A L x (filter (sameCommunity vcom) dels) ins vcom vtot B
        = Inr flags)"
proof (intro conjI impI allI)
  assume "tableInRange x vcom \<and> edgesInRange x \<and> batchInRange x vcom dels \<and>
      insertionsInRange A L x vcom vtot ins"
  then show "\<exists>flags. copraAffectedVerticesDeltaScreening A L x dels ins vcom vtot B = Inr flags"
    using deltaScreening_total [of x vcom dels A L vtot ins B] by simp
next
  fix flags
  assume r: "copraAffectedVerticesDeltaScreening A L x dels ins vcom vtot B = Inr flags"
  show "length flags = graph_span x" using r by (rule deltaScreening_length)
  show "copraAffectedVerticesDeltaScreening A L x (filter (sameCommunity vcom) dels) ins vcom vtot B
        = Inr flags"
    using r by (rule deltaScreening_filter)
  show "\<forall>(u, v)\<in>set dels. \<forall>c.
          primaryCommunity vcom u = Inr c \<and> primaryCommunity vcom v = Inr c \<longrightarrow>
          flags ! u \<and>
          (u \<in> set (graph_vertexKeys x) \<longrightarrow> (\<forall>t\<in>fst ` set (graph_edges x u). flags ! t)) \<and>
          (\<forall>t\<in>set (graph_vertexKeys x). primaryCommunity vcom t = Inr c \<longrightarrow> flags ! t)"
    using deltaScreening_marked [OF r] by blast
qed

theorem deltaScreening_deletions_witness:
  "\<exists>flags. copraAffectedVerticesDeltaScreening exactArith 8 pathGraph [(0, 1)] [(0, 2, 0)]
       mergedCommunities [5, 6, 1] (1 / 10) = Inr flags \<and>
     length flags = graph_span pathGraph \<and> flags ! 0 \<and> flags ! 1"
proof -
  have wf: "tableInRange pathGraph mergedCommunities \<and> edgesInRange pathGraph \<and>
      batchInRange pathGraph mergedCommunities [(0, 1)] \<and>
      insertionsInRange exactArith 8 pathGraph mergedCommunities [5, 6, 1] [(0, 2, 0)]"
    by code_simp
  have p: "primaryCommunity mergedCommunities 0 = Inr 0 \<and>
      primaryCommunity mergedCommunities 1 = Inr 0"
    by code_simp
  have k: "0 \<in> set (graph_vertexKeys pathGraph)" "1 \<in> fst ` set (graph_edges pathGraph 0)"
    by (simp_all add: pathGraph_def)
  have d: "(0, 1) \<in> set [(0::nat, 1::nat)]" by simp
  note T = deltaScreening_deletions [where A = exactArith and L = 8 and x = pathGraph
      and dels = "[(0, 1)]" and ins = "[(0, 2, 0)]" and vcom = mergedCommunities
      and vtot = "[5, 6, 1]" and B = "1 / 10"]
  obtain flags where f: "copraAffectedVerticesDeltaScreening exactArith 8 pathGraph [(0, 1)]
      [(0, 2, 0)] mergedCommunities [5, 6, 1] (1 / 10) = Inr flags"
    using T wf by blast
  have "length flags = graph_span pathGraph \<and> flags ! 0 \<and> flags ! 1"
    using T f p k d by blast
  then show ?thesis using f by blast
qed

text \<open>
  C10. With empty deletion and insertion batches, \<open>copraAffectedVerticesFrontier\<close>
  returns \<open>span(x)\<close> flags that are all false, and so does
  \<open>copraAffectedVerticesDeltaScreening\<close> for a Labelset table in which every vertex key of
  the graph has a Labelset and a primary community below the span (its last pass reads
  \<open>vcom[u][0]\<close>, \<open>neighbors[u]\<close> and \<open>communities[cu]\<close> for every vertex key).
\<close>

theorem empty_batch_unaffected:
  "copraAffectedVerticesFrontier x [] [] vcom = Inr (replicate (graph_span x) False) \<and>
   (tableInRange x vcom \<longrightarrow>
      copraAffectedVerticesDeltaScreening A L x [] [] vcom vtot B
        = Inr (replicate (graph_span x) False))"
proof -
  have "copraAffectedVerticesFrontier x [] [] vcom = Inr (replicate (graph_span x) False)"
    by (simp add: copraAffectedVerticesFrontier_def)
  moreover have "copraAffectedVerticesDeltaScreening A L x [] [] vcom vtot B
        = Inr (replicate (graph_span x) False)" if "tableInRange x vcom"
  proof -
    have "\<forall>u\<in>set (graph_vertexKeys x). inTable x vcom u"
      using that by (simp add: tableInRange_def list_all_iff)
    then show ?thesis
      using dsPropagate_unmarked [of "graph_vertexKeys x" x vcom "replicate (graph_span x) False"]
      by (simp add: copraAffectedVerticesDeltaScreening_def dsInit_def)
  qed
  ultimately show ?thesis by blast
qed

theorem empty_batch_unaffected_witness:
  "tableInRange pathGraph ownCommunities \<and>
   copraAffectedVerticesFrontier pathGraph [] [] ownCommunities
     = Inr (replicate (graph_span pathGraph) False) \<and>
   copraAffectedVerticesDeltaScreening exactArith 8 pathGraph [] [] ownCommunities [5, 6, 1] (1 / 10)
     = Inr (replicate (graph_span pathGraph) False)"
proof -
  have wf: "tableInRange pathGraph ownCommunities" by code_simp
  show ?thesis
    using wf empty_batch_unaffected [where x = pathGraph and vcom = ownCommunities
        and A = exactArith and L = 8 and vtot = "[5, 6, 1]" and B = "1 / 10"]
    by blast
qed




text \<open>
  C8. The example of the claim: insertion batch \<open>[(0, 2, w=5)]\<close>, every vertex its own
  community, \<open>B = 0.1\<close>, vertex weight 5 for vertex 0. The claim is that the scanned weight
  goes to community 2, which the Selector then picks, so that vertex 0, its neighbors and
  the members of community 2 are flagged. In the source the scan of the run credits the
  weight 5 to community 0, the Selector returns the singleton of community 0, and
  no vertex is flagged.
\<close>

theorem deltaScreening_insertion_example:
  "dsScanRun exactArith ownCommunities 0 ([], [0, 0, 0]) [(0, 2, 5)] = Inr ([0], [5, 0, 0]) \<and>
   copraChooseCommunity exactArith 8 0 [0] [5, 0, 0] (1 / 10 * 5)
     = Inr (selfLabelset exactArith 8 0) \<and>
   copraAffectedVerticesDeltaScreening exactArith 8 pathGraph [] [(0, 2, 5)]
     ownCommunities [5, 6, 1] (1 / 10)
     = Inr [False, False, False]"
  by code_simp

end
